theory Spec2Isabelle
  imports Main "HOL-Library.Word"
begin

unbundle bit_operations_syntax

section \<open>Value representation (value.h)\<close>

type_synonym VALUE = "64 word"

definition kMaskSignBit :: VALUE where "kMaskSignBit = 0x8000000000000000"
definition kMaskExponentBits :: VALUE where "kMaskExponentBits = 0x7ff0000000000000"
definition kMaskQuietBit :: VALUE where "kMaskQuietBit = 0x0008000000000000"
definition kMaskSignature :: VALUE where "kMaskSignature = 0xffff000000000000"

definition kITypeFalse :: VALUE where "kITypeFalse = 0x0001000000000000"
definition kITypeTrue :: VALUE where "kITypeTrue = 0x0002000000000000"
definition kITypeNull :: VALUE where "kITypeNull = 0x0003000000000000"
definition kITypeInteger :: VALUE where "kITypeInteger = 0x0004000000000000"
definition kITypeSymbol :: VALUE where "kITypeSymbol = 0x0005000000000000"
definition kITypePString :: VALUE where "kITypePString = 0x0006000000000000"
definition kITypeIString :: VALUE where "kITypeIString = 0x0007000000000000"

definition kBitsNaN :: VALUE where "kBitsNaN = kMaskExponentBits OR kMaskQuietBit"
definition kNaN :: VALUE where "kNaN = kBitsNaN"
definition kFalse :: VALUE where "kFalse = kBitsNaN OR kITypeFalse"
definition kTrue :: VALUE where "kTrue = kBitsNaN OR kITypeTrue"
definition kNull :: VALUE where "kNull = kBitsNaN OR kITypeNull"

definition kSignaturePointer :: VALUE where "kSignaturePointer = kMaskSignBit OR kBitsNaN"
definition kSignatureInteger :: VALUE where "kSignatureInteger = kBitsNaN OR kITypeInteger"
definition kSignatureSymbol :: VALUE where "kSignatureSymbol = kBitsNaN OR kITypeSymbol"
definition kSignaturePString :: VALUE where "kSignaturePString = kBitsNaN OR kITypePString"
definition kSignatureIString :: VALUE where "kSignatureIString = kBitsNaN OR kITypeIString"

definition kMaskPointer :: VALUE where "kMaskPointer = 0x0000ffffffffffff"
definition kMaskInteger :: VALUE where "kMaskInteger = 0x0000ffffffffffff"
definition kMaskIntegerSign :: VALUE where "kMaskIntegerSign = 0x0000800000000000"

definition kMaxInt :: int where "kMaxInt = 2 ^ 47 - 1"
definition kMinInt :: int where "kMinInt = - (2 ^ 47)"
definition kSignBlock :: VALUE where "kSignBlock = 0xFFFF000000000000"

definition charly_int_to_int64 :: "VALUE \<Rightarrow> 64 word" where
  "charly_int_to_int64 v =
     (v AND kMaskInteger) OR (if v AND kMaskIntegerSign \<noteq> 0 then kSignBlock else 0)"

definition charly_create_integer :: "64 word \<Rightarrow> VALUE" where
  "charly_create_integer v = kSignatureInteger OR (v AND kMaskInteger)"

section \<open>Integer encoding\<close>

lemma kMaskInteger_mask: "kMaskInteger = mask 48"
  by (simp add: kMaskInteger_def mask_eq_exp_minus_1)

lemma kSignBlock_mask: "kSignBlock = NOT (mask 48)"
  by (simp add: kSignBlock_def mask_eq_exp_minus_1)

lemma kSignatureInteger_mask: "kSignatureInteger = push_bit 50 (mask 13)"
  by (simp add: kSignatureInteger_def kBitsNaN_def kMaskExponentBits_def kMaskQuietBit_def
      kITypeInteger_def mask_eq_exp_minus_1)

lemma integer_sign_test: "(v AND kMaskIntegerSign \<noteq> 0) = bit v 47"
proof -
  have "kMaskIntegerSign = push_bit 47 1"
    by (simp add: kMaskIntegerSign_def)
  then show ?thesis
    by (simp only: bit_iff_and_push_bit_not_eq_0)
qed

lemma nat_47_48: "47 \<le> n \<Longrightarrow> n < 48 \<Longrightarrow> n = (47::nat)"
  by arith

text \<open>Reading an encoded integer back sign-extends bit 47 of the payload.\<close>

lemma int_to_int64_create_integer:
  "charly_int_to_int64 (charly_create_integer v) = signed_take_bit 47 v"
proof -
  have "bit (kSignatureInteger OR (v AND kMaskInteger)) 47 = bit v 47"
    unfolding kMaskInteger_mask kSignatureInteger_mask by (simp add: bit_simps)
  then show ?thesis
    unfolding charly_int_to_int64_def charly_create_integer_def integer_sign_test
    unfolding kMaskInteger_mask kSignBlock_mask kSignatureInteger_mask
    by (intro bit_word_eqI) (auto simp add: bit_simps min_def split: if_splits dest: nat_47_48)
qed

lemma sint_signed_take_bit_47:
  "sint (signed_take_bit 47 v) = signed_take_bit 47 (sint v)" for v :: "64 word"
  by (rule bit_eqI) (auto simp add: bit_simps bit_sint_iff min_def)

lemma signed_take_bit_47_id:
  fixes v :: "64 word"
  assumes "- (2 ^ 47) \<le> sint v" and "sint v < 2 ^ 47"
  shows "signed_take_bit 47 v = v"
proof -
  have "sint (signed_take_bit 47 v) = sint v"
    unfolding sint_signed_take_bit_47 using assms by (simp add: signed_take_bit_int_eq_self)
  then show ?thesis
    by (rule signed_word_eqI)
qed

lemma signed_take_bit_47_range:
  fixes v :: "64 word"
  shows "- (2 ^ 47) \<le> sint (signed_take_bit 47 v)" and "sint (signed_take_bit 47 v) < 2 ^ 47"
  unfolding sint_signed_take_bit_47
  using signed_take_bit_int_greater_eq_minus_exp [of 47 "sint v"]
    signed_take_bit_int_less_exp [of 47 "sint v"]
  by simp_all

lemma int_to_int64_create_integer_id:
  assumes "kMinInt \<le> sint i" and "sint i \<le> kMaxInt"
  shows "charly_int_to_int64 (charly_create_integer i) = i"
proof -
  from assms have "- (2 ^ 47) \<le> sint i" and "sint i < 2 ^ 47"
    by (simp_all add: kMinInt_def kMaxInt_def)
  then show ?thesis
    by (simp add: int_to_int64_create_integer signed_take_bit_47_id)
qed

text \<open>
  Claim C4. For every 48-bit signed integer \<open>i\<close>, that is \<open>kMinInt \<le> i \<le> kMaxInt\<close>,
  decoding after encoding is the identity:
  \<open>charly_int_to_int64 (charly_create_integer i) = i\<close>. The integer is the
  \<open>int64_t\<close> argument, read as two's complement by \<open>sint\<close>; negative
  integers are covered, since bit 47 of the payload is sign-extended on read.
\<close>

theorem create_integer_roundtrip:
  assumes "kMinInt \<le> sint i" and "sint i \<le> kMaxInt"
  shows "charly_int_to_int64 (charly_create_integer i) = i"
  using assms by (rule int_to_int64_create_integer_id)

theorem create_integer_roundtrip_witness:
  "kMinInt \<le> sint (- 5 :: 64 word) \<and> sint (- 5 :: 64 word) \<le> kMaxInt \<and>
   charly_int_to_int64 (charly_create_integer (- 5)) = - 5"
proof -
  have a: "kMinInt \<le> sint (- 5 :: 64 word)" by (simp add: kMinInt_def)
  have b: "sint (- 5 :: 64 word) \<le> kMaxInt" by (simp add: kMaxInt_def)
  from a b create_integer_roundtrip [OF a b] show ?thesis by simp
qed

section \<open>Double encoding\<close>

text \<open>
  A C++ \<open>double\<close> is modelled by its IEEE-754 binary64 bit pattern: one sign bit, eleven
  exponent bits and 52 mantissa bits. The three classes of the standard are read off the
  pattern: all exponent bits set and a zero mantissa is an infinity, all exponent bits set
  and a non-zero mantissa is a NaN, anything else is finite. Equality of doubles
  (\<open>==\<close>) is false as soon as one side is a NaN and identifies the two zeros.
\<close>

type_synonym double = "64 word"

definition kMaskMantissaBits :: "64 word" where "kMaskMantissaBits = 0x000fffffffffffff"

definition double_is_finite :: "double \<Rightarrow> bool" where
  "double_is_finite d \<longleftrightarrow> d AND kMaskExponentBits \<noteq> kMaskExponentBits"

definition double_is_inf :: "double \<Rightarrow> bool" where
  "double_is_inf d \<longleftrightarrow> d AND kMaskExponentBits = kMaskExponentBits \<and> d AND kMaskMantissaBits = 0"

definition double_is_nan :: "double \<Rightarrow> bool" where
  "double_is_nan d \<longleftrightarrow> d AND kMaskExponentBits = kMaskExponentBits \<and> d AND kMaskMantissaBits \<noteq> 0"

definition double_is_zero :: "double \<Rightarrow> bool" where
  "double_is_zero d \<longleftrightarrow> d = 0 \<or> d = kMaskSignBit"

definition double_eq :: "double \<Rightarrow> double \<Rightarrow> bool" where
  "double_eq a b \<longleftrightarrow>
     \<not> double_is_nan a \<and> \<not> double_is_nan b \<and> (a = b \<or> (double_is_zero a \<and> double_is_zero b))"

text \<open>
  Modelled from the spec: \<open>BITCAST_DOUBLE\<close> is a macro of \<open>defines.h\<close>, which is not
  among the sources. A double "is stored directly" in a value, so the macro reinterprets
  the 64 bits of the value as a double and leaves them unchanged.
\<close>

definition BITCAST_DOUBLE :: "VALUE \<Rightarrow> double" where
  "BITCAST_DOUBLE v = v"

definition charly_double_to_double :: "VALUE \<Rightarrow> double" where
  "charly_double_to_double v = BITCAST_DOUBLE v"

definition charly_create_double :: "double \<Rightarrow> VALUE" where
  "charly_create_double d =
     (if d AND kMaskExponentBits = kMaskExponentBits then kBitsNaN else d)"

definition charly_is_nan :: "VALUE \<Rightarrow> bool" where
  "charly_is_nan v \<longleftrightarrow> v = kNaN"

lemma double_classes:
  "double_is_finite d \<or> double_is_inf d \<or> double_is_nan d"
  by (auto simp add: double_is_finite_def double_is_inf_def double_is_nan_def)

text \<open>
  Claim C3, as stated, fails at positive infinity: all its exponent bits are set, so
  \<open>charly_create_double\<close> replaces it by the canonical NaN and the round trip does not
  give the infinity back.
\<close>

theorem create_double_infinity_counterexample:
  "double_is_inf 0x7ff0000000000000 \<and>
   charly_create_double 0x7ff0000000000000 = kBitsNaN \<and>
   \<not> double_eq (charly_double_to_double (charly_create_double 0x7ff0000000000000))
        0x7ff0000000000000"
  by (simp add: double_is_inf_def double_eq_def double_is_nan_def double_is_zero_def
      charly_create_double_def charly_double_to_double_def BITCAST_DOUBLE_def
      kMaskExponentBits_def kMaskMantissaBits_def kBitsNaN_def kMaskQuietBit_def kMaskSignBit_def)

text \<open>
  Claim C3, amended. \<open>charly_create_double\<close> stores every finite double directly, so
  reading it back gives the same bits and an equal double; every input whose exponent
  bits are all set, that is every NaN and both infinities, becomes the single canonical
  quiet NaN \<open>kBitsNaN\<close>, for which \<open>charly_is_nan\<close> holds.
\<close>

theorem create_double_finite_or_canonical_nan:
  "(double_is_finite d \<longrightarrow>
      charly_double_to_double (charly_create_double d) = d \<and>
      double_eq (charly_double_to_double (charly_create_double d)) d) \<and>
   (double_is_nan d \<or> double_is_inf d \<longrightarrow>
      charly_create_double d = kBitsNaN \<and> charly_is_nan (charly_create_double d))"
  by (auto simp add: double_is_finite_def double_is_inf_def double_is_nan_def double_eq_def
      charly_create_double_def charly_double_to_double_def BITCAST_DOUBLE_def
      charly_is_nan_def kNaN_def)

theorem create_double_finite_or_canonical_nan_witness:
  "double_is_finite 0x3ff8000000000000 \<and>
   charly_double_to_double (charly_create_double 0x3ff8000000000000) = 0x3ff8000000000000 \<and>
   double_is_nan 0xfff0000000000001 \<and>
   charly_create_double 0xfff0000000000001 = kBitsNaN \<and>
   double_is_inf 0xfff0000000000000 \<and>
   charly_create_double 0xfff0000000000000 = kBitsNaN"
proof -
  have f: "double_is_finite 0x3ff8000000000000"
    by (simp add: double_is_finite_def kMaskExponentBits_def)
  have n: "double_is_nan 0xfff0000000000001"
    by (simp add: double_is_nan_def kMaskExponentBits_def kMaskMantissaBits_def)
  have i: "double_is_inf 0xfff0000000000000"
    by (simp add: double_is_inf_def kMaskExponentBits_def kMaskMantissaBits_def)
  from f n i
    create_double_finite_or_canonical_nan [of "0x3ff8000000000000"]
    create_double_finite_or_canonical_nan [of "0xfff0000000000001"]
    create_double_finite_or_canonical_nan [of "0xfff0000000000000"]
  show ?thesis by blast
qed

section \<open>Heap cells (value.h)\<close>

text \<open>
  A native address is a 64-bit word; \<open>0\<close> is \<open>nullptr\<close>. The structures that live in a
  memory cell become records. A \<open>std::unordered_map<VALUE, VALUE>\<close> is an association
  list in the order in which the map iterates, a \<open>std::vector\<close> is a list.
\<close>

type_synonym addr = "64 word"
type_synonym container = "(VALUE \<times> VALUE) list"

datatype ValueType =
    kTypeDead | kTypeClass | kTypeObject | kTypeArray | kTypeString | kTypeFunction
  | kTypeCFunction | kTypeGenerator | kTypeFrame | kTypeCatchTable | kTypeCPointer
  | kTypeNumber | kTypeBoolean | kTypeNull | kTypeSymbol | kTypeUnknown

record Object =
  obj_klass :: VALUE
  obj_container :: container

record Array =
  arr_data :: "VALUE list"

text \<open>
  The two layouts of a \<open>String\<close> share their memory; flag \<open>f1\<close> of the header says which
  one is in use.
\<close>

record String =
  lbuf_length :: "32 word"
  lbuf_data :: "8 word list"
  sbuf_length :: "8 word"
  sbuf_data :: "8 word list"

text \<open>
  The inline environment of a small frame is the list of its \<open>senv.lvarcount\<close> first
  slots; the heap vector \<open>lenv\<close> may be a null pointer.
\<close>

record Frame =
  frm_parent :: addr
  frm_parent_environment_frame :: addr
  frm_last_active_catchtable :: addr
  frm_caller_value :: VALUE
  frm_stacksize_at_entry :: "32 word"
  frm_lenv :: "VALUE list option"
  frm_senv :: "VALUE list"
  frm_self :: VALUE
  frm_origin_address :: addr
  frm_return_address :: addr

record CatchTable =
  ct_address :: addr
  ct_stacksize :: "64 word"
  ct_frame :: addr
  ct_parent :: addr

record CPointer =
  cp_data :: addr
  cp_destructor :: addr

record Function =
  fn_name :: VALUE
  fn_argc :: "32 word"
  fn_minimum_argc :: "32 word"
  fn_lvarcount :: "32 word"
  fn_context :: addr
  fn_body_address :: addr
  fn_bound_self_set :: bool
  fn_bound_self :: VALUE
  fn_host_class :: VALUE
  fn_container :: container

record CFunction =
  cfn_name :: VALUE
  cfn_pointer :: addr
  cfn_argc :: "32 word"
  cfn_container :: container
  cfn_thread_policy :: "8 word"
  cfn_push_return_value :: bool
  cfn_halt_after_return :: bool

record Generator =
  gen_name :: VALUE
  gen_context_frame :: addr
  gen_boot_function :: addr
  gen_context_catchtable :: addr
  gen_context_stack :: "VALUE list"
  gen_resume_address :: addr
  gen_owns_catchtable :: bool
  gen_running :: bool
  gen_bound_self_set :: bool
  gen_bound_self :: VALUE
  gen_container :: container

record Class =
  cls_name :: VALUE
  cls_constructor :: VALUE
  cls_member_properties :: "VALUE list"
  cls_prototype :: VALUE
  cls_parent_class :: VALUE
  cls_container :: container

text \<open>
  The payload of a cell; the constructor is the \<open>type\<close> field of the header. A dead cell
  holds the \<open>next\<close> pointer of the freelist.
\<close>

datatype payload =
    DeadCell addr
  | ClassCell Class
  | ObjectCell Object
  | ArrayCell Array
  | StringCell String
  | FunctionCell Function
  | CFunctionCell CFunction
  | GeneratorCell Generator
  | FrameCell Frame
  | CatchTableCell CatchTable
  | CPointerCell CPointer

record MemoryCell =
  basic_f1 :: bool
  basic_f2 :: bool
  basic_mark :: bool
  cell_payload :: payload

fun payload_type :: "payload \<Rightarrow> ValueType" where
  "payload_type (DeadCell _) = kTypeDead"
| "payload_type (ClassCell _) = kTypeClass"
| "payload_type (ObjectCell _) = kTypeObject"
| "payload_type (ArrayCell _) = kTypeArray"
| "payload_type (StringCell _) = kTypeString"
| "payload_type (FunctionCell _) = kTypeFunction"
| "payload_type (CFunctionCell _) = kTypeCFunction"
| "payload_type (GeneratorCell _) = kTypeGenerator"
| "payload_type (FrameCell _) = kTypeFrame"
| "payload_type (CatchTableCell _) = kTypeCatchTable"
| "payload_type (CPointerCell _) = kTypeCPointer"

definition basic_type :: "MemoryCell \<Rightarrow> ValueType" where
  "basic_type c = payload_type (cell_payload c)"

text \<open>
  The memory the pointers of values refer to. Dereferencing an address that holds no
  cell is undefined behaviour in the source; the type tests below answer \<open>False\<close> there,
  and the theorems about them assume that the pointer refers to a cell.
\<close>

type_synonym memory = "addr \<Rightarrow> MemoryCell option"

definition charly_as_pointer :: "VALUE \<Rightarrow> addr" where
  "charly_as_pointer v = v AND kMaskPointer"

definition charly_is_false :: "VALUE \<Rightarrow> bool" where "charly_is_false v \<longleftrightarrow> v = kFalse"
definition charly_is_true :: "VALUE \<Rightarrow> bool" where "charly_is_true v \<longleftrightarrow> v = kTrue"
definition charly_is_boolean :: "VALUE \<Rightarrow> bool" where
  "charly_is_boolean v \<longleftrightarrow> charly_is_false v \<or> charly_is_true v"
definition charly_is_null :: "VALUE \<Rightarrow> bool" where "charly_is_null v \<longleftrightarrow> v = kNull"
definition charly_is_float :: "VALUE \<Rightarrow> bool" where
  "charly_is_float v \<longleftrightarrow> charly_is_nan v \<or> (NOT v) AND kMaskExponentBits \<noteq> 0"
definition charly_is_int :: "VALUE \<Rightarrow> bool" where
  "charly_is_int v \<longleftrightarrow> v AND kMaskSignature = kSignatureInteger"
definition charly_is_number :: "VALUE \<Rightarrow> bool" where
  "charly_is_number v \<longleftrightarrow> charly_is_int v \<or> charly_is_float v"
definition charly_is_symbol :: "VALUE \<Rightarrow> bool" where
  "charly_is_symbol v \<longleftrightarrow> v AND kMaskSignature = kSignatureSymbol"
definition charly_is_pstring :: "VALUE \<Rightarrow> bool" where
  "charly_is_pstring v \<longleftrightarrow> v AND kMaskSignature = kSignaturePString"
definition charly_is_istring :: "VALUE \<Rightarrow> bool" where
  "charly_is_istring v \<longleftrightarrow> v AND kMaskSignature = kSignatureIString"
definition charly_is_ptr :: "VALUE \<Rightarrow> bool" where
  "charly_is_ptr v \<longleftrightarrow> v AND kMaskSignature = kSignaturePointer"

definition charly_is_on_heap :: "VALUE \<Rightarrow> bool" where
  "charly_is_on_heap v \<longleftrightarrow> charly_is_ptr v"

definition charly_as_basic :: "memory \<Rightarrow> VALUE \<Rightarrow> MemoryCell option" where
  "charly_as_basic mem v = mem (charly_as_pointer v)"

definition charly_is_heap_type :: "memory \<Rightarrow> VALUE \<Rightarrow> ValueType \<Rightarrow> bool" where
  "charly_is_heap_type mem v t \<longleftrightarrow>
     charly_is_on_heap v \<and>
     (case charly_as_basic mem v of None \<Rightarrow> False | Some c \<Rightarrow> basic_type c = t)"

definition charly_is_dead :: "memory \<Rightarrow> VALUE \<Rightarrow> bool" where
  "charly_is_dead mem v \<longleftrightarrow> charly_is_heap_type mem v kTypeDead"
definition charly_is_class :: "memory \<Rightarrow> VALUE \<Rightarrow> bool" where
  "charly_is_class mem v \<longleftrightarrow> charly_is_heap_type mem v kTypeClass"
definition charly_is_object :: "memory \<Rightarrow> VALUE \<Rightarrow> bool" where
  "charly_is_object mem v \<longleftrightarrow> charly_is_heap_type mem v kTypeObject"
definition charly_is_hstring :: "memory \<Rightarrow> VALUE \<Rightarrow> bool" where
  "charly_is_hstring mem v \<longleftrightarrow> charly_is_heap_type mem v kTypeString"
definition charly_is_generator :: "memory \<Rightarrow> VALUE \<Rightarrow> bool" where
  "charly_is_generator mem v \<longleftrightarrow> charly_is_heap_type mem v kTypeGenerator"

text \<open>The casts: the cell behind the pointer, read as the structure asked for.\<close>

definition charly_as_class :: "memory \<Rightarrow> VALUE \<Rightarrow> Class option" where
  "charly_as_class mem v =
     (case charly_as_basic mem v of
        Some c \<Rightarrow> (case cell_payload c of ClassCell k \<Rightarrow> Some k | _ \<Rightarrow> None)
      | None \<Rightarrow> None)"

definition charly_as_object :: "memory \<Rightarrow> VALUE \<Rightarrow> Object option" where
  "charly_as_object mem v =
     (case charly_as_basic mem v of
        Some c \<Rightarrow> (case cell_payload c of ObjectCell ob \<Rightarrow> Some ob | _ \<Rightarrow> None)
      | None \<Rightarrow> None)"

definition charly_as_hstring :: "memory \<Rightarrow> VALUE \<Rightarrow> (MemoryCell \<times> String) option" where
  "charly_as_hstring mem v =
     (case charly_as_basic mem v of
        Some c \<Rightarrow> (case cell_payload c of StringCell str \<Rightarrow> Some (c, str) | _ \<Rightarrow> None)
      | None \<Rightarrow> None)"

text \<open>\<open>Generator::finished\<close> reads flag \<open>f1\<close> of the header.\<close>

definition generator_finished :: "MemoryCell \<Rightarrow> bool" where
  "generator_finished c = basic_f1 c"

section \<open>Truthiness\<close>

definition charly_truthyness :: "memory \<Rightarrow> VALUE \<Rightarrow> bool" where
  "charly_truthyness mem v =
     (if v = kNaN then False
      else if v = kNull then False
      else if v = kFalse then False
      else if charly_is_int v then charly_int_to_int64 v \<noteq> 0
      else if charly_is_float v then \<not> double_eq (charly_double_to_double v) 0
      else if charly_is_generator mem v then
        (case charly_as_basic mem v of Some c \<Rightarrow> \<not> generator_finished c | None \<Rightarrow> True)
      else True)"

text \<open>A value that is a generator whose \<open>finished\<close> flag is set.\<close>

definition finished_generator :: "memory \<Rightarrow> VALUE \<Rightarrow> bool" where
  "finished_generator mem v \<longleftrightarrow>
     charly_is_generator mem v \<and>
     (case charly_as_basic mem v of Some c \<Rightarrow> generator_finished c | None \<Rightarrow> False)"

lemmas value_consts = kNaN_def kNull_def kFalse_def kTrue_def kBitsNaN_def kMaskExponentBits_def
  kMaskQuietBit_def kMaskSignBit_def kMaskSignature_def kITypeFalse_def kITypeTrue_def kITypeNull_def
  kITypeInteger_def kITypeSymbol_def kITypePString_def kITypeIString_def
  kSignaturePointer_def kSignatureInteger_def kSignatureSymbol_def kSignaturePString_def
  kSignatureIString_def kMaskPointer_def kMaskInteger_def kMaskIntegerSign_def kSignBlock_def

lemma kMaskSignature_mask: "kMaskSignature = NOT (mask 48)"
  by (simp add: kMaskSignature_def mask_eq_exp_minus_1)

lemma kMaskExponentBits_mask: "kMaskExponentBits = push_bit 52 (mask 11)"
  by (simp add: kMaskExponentBits_def mask_eq_exp_minus_1)

lemma kSignaturePointer_mask: "kSignaturePointer = NOT (mask 51)"
  by (simp add: kSignaturePointer_def kMaskSignBit_def kBitsNaN_def kMaskExponentBits_def
      kMaskQuietBit_def mask_eq_exp_minus_1)

lemma payload_signature_split: "(v AND mask 48) OR (v AND NOT (mask 48)) = v" for v :: "64 word"
  by (rule bit_word_eqI) (auto simp add: bit_simps)

lemma is_int_zero:
  assumes "charly_is_int v"
  shows "(charly_int_to_int64 v = 0) = (v = kSignatureInteger)"
proof
  assume "charly_int_to_int64 v = 0"
  then have "v AND mask 48 = 0"
    by (simp add: charly_int_to_int64_def kMaskInteger_mask or_eq_0_iff)
  moreover have "v AND NOT (mask 48) = kSignatureInteger"
    using assms by (simp add: charly_is_int_def kMaskSignature_mask)
  ultimately show "v = kSignatureInteger"
    using payload_signature_split [of v] by simp
next
  assume "v = kSignatureInteger"
  then show "charly_int_to_int64 v = 0"
    by (simp add: charly_int_to_int64_def value_consts)
qed

lemma ptr_not_float:
  assumes "charly_is_ptr v"
  shows "\<not> charly_is_float v"
proof -
  have h: "v AND NOT (mask 48) = NOT (mask 51)"
    using assms by (simp add: charly_is_ptr_def kMaskSignature_mask kSignaturePointer_mask)
  have b: "bit v n" if "51 \<le> n" "n < 64" for n
    using bit_eq_iff [THEN iffD1, OF h, rule_format, of n] that
    by (simp add: bit_simps)
  have "(NOT v) AND kMaskExponentBits = 0"
    unfolding kMaskExponentBits_mask
    by (rule bit_word_eqI) (auto simp add: bit_simps b)
  moreover have "v \<noteq> kNaN"
    using assms by (auto simp add: charly_is_ptr_def value_consts)
  ultimately show ?thesis
    by (simp add: charly_is_float_def charly_is_nan_def)
qed

lemma ptr_not_int: "charly_is_ptr v \<Longrightarrow> \<not> charly_is_int v"
  by (simp add: charly_is_ptr_def charly_is_int_def value_consts)

lemma ptr_not_immediate:
  "charly_is_ptr v \<Longrightarrow>
     v \<noteq> kNaN \<and> v \<noteq> kNull \<and> v \<noteq> kFalse \<and> v \<noteq> kSignatureInteger \<and> v \<noteq> 0 \<and> v \<noteq> kMaskSignBit"
  by (auto simp add: charly_is_ptr_def value_consts)

lemma double_eq_zero: "double_eq d 0 = double_is_zero d"
  by (auto simp add: double_eq_def double_is_zero_def double_is_nan_def kMaskSignBit_def
      kMaskExponentBits_def kMaskMantissaBits_def)

lemma zero_kinds:
  "v = 0 \<or> v = kMaskSignBit \<Longrightarrow>
     v \<noteq> kNaN \<and> v \<noteq> kNull \<and> v \<noteq> kFalse \<and> \<not> charly_is_int v \<and> charly_is_float v"
  by (auto simp add: charly_is_int_def charly_is_float_def value_consts)

lemma int_kinds:
  "charly_is_int v \<Longrightarrow> v \<noteq> kNaN \<and> v \<noteq> kNull \<and> v \<noteq> kFalse \<and> v \<noteq> 0 \<and> v \<noteq> kMaskSignBit"
  by (auto simp add: charly_is_int_def value_consts)

lemma generator_is_ptr: "charly_is_generator mem v \<Longrightarrow> charly_is_ptr v"
  by (simp add: charly_is_generator_def charly_is_heap_type_def charly_is_on_heap_def)

text \<open>
  Claim C5. \<open>charly_truthyness v\<close> is false exactly when \<open>v\<close> is false, null, the
  integer 0, the float \<open>+0.0\<close> (all bits clear), the float \<open>-0.0\<close> (only the sign bit
  set), the canonical NaN or a generator whose \<open>finished\<close> flag is set; it is true for
  every other value. A pointer value is assumed to refer to a cell of the memory.
\<close>

theorem truthyness_false_iff:
  assumes "charly_is_ptr v \<longrightarrow> mem (charly_as_pointer v) \<noteq> None"
  shows "charly_truthyness mem v \<longleftrightarrow>
     \<not> (v = kFalse \<or> v = kNull \<or> v = charly_create_integer 0 \<or>
        v = charly_create_double 0 \<or> v = charly_create_double kMaskSignBit \<or>
        v = kNaN \<or> finished_generator mem v)"
proof -
  have ci: "charly_create_integer 0 = kSignatureInteger"
    by (simp add: charly_create_integer_def)
  have cd: "charly_create_double 0 = 0" "charly_create_double kMaskSignBit = kMaskSignBit"
    by (simp_all add: charly_create_double_def value_consts)
  show ?thesis
  proof (cases "charly_is_ptr v")
    case True
    with assms obtain c where c: "mem (charly_as_pointer v) = Some c" by auto
    from True show ?thesis
      using ptr_not_float [OF True] ptr_not_int [OF True] ptr_not_immediate [OF True] c
      by (auto simp add: charly_truthyness_def finished_generator_def ci cd charly_as_basic_def)
  next
    case False
    then have ng: "\<not> charly_is_generator mem v"
      using generator_is_ptr by blast
    show ?thesis
    proof (cases "charly_is_int v")
      case True
      then show ?thesis
        using int_kinds [OF True] is_int_zero [OF True] ng
        by (auto simp add: charly_truthyness_def finished_generator_def ci cd)
    next
      case nint: False
      then have "v \<noteq> kSignatureInteger"
        by (auto simp add: charly_is_int_def value_consts)
      then show ?thesis
        using nint ng zero_kinds [of v]
        by (auto simp add: charly_truthyness_def finished_generator_def ci cd double_eq_zero
            double_is_zero_def charly_double_to_double_def BITCAST_DOUBLE_def)
    qed
  qed
qed

text \<open>
  The witness: a finished generator in the cell at address \<open>0x1000\<close> is falsy, the
  empty inline string is truthy.
\<close>

abbreviation finished_generator_cell :: MemoryCell where
  "finished_generator_cell \<equiv>
     \<lparr>basic_f1 = True, basic_f2 = True, basic_mark = False,
      cell_payload = GeneratorCell
        \<lparr>gen_name = kNull, gen_context_frame = 0, gen_boot_function = 0,
         gen_context_catchtable = 0, gen_context_stack = [], gen_resume_address = 0,
         gen_owns_catchtable = False, gen_running = False, gen_bound_self_set = False,
         gen_bound_self = kNull, gen_container = []\<rparr>\<rparr>"

theorem truthyness_false_iff_witness:
  "charly_is_ptr 0xfff8000000001000 \<and>
   [0x1000 \<mapsto> finished_generator_cell] (charly_as_pointer 0xfff8000000001000) \<noteq> None \<and>
   finished_generator [0x1000 \<mapsto> finished_generator_cell] 0xfff8000000001000 \<and>
   \<not> charly_truthyness [0x1000 \<mapsto> finished_generator_cell] 0xfff8000000001000 \<and>
   \<not> charly_is_ptr kSignatureIString \<and>
   charly_truthyness [0x1000 \<mapsto> finished_generator_cell] kSignatureIString"
proof -
  have p: "charly_is_ptr 0xfff8000000001000"
    by (simp add: charly_is_ptr_def value_consts)
  have a: "charly_as_pointer 0xfff8000000001000 = 0x1000"
    by (simp add: charly_as_pointer_def kMaskPointer_def)
  have g: "finished_generator [0x1000 \<mapsto> finished_generator_cell] 0xfff8000000001000"
    by (simp add: finished_generator_def charly_is_generator_def charly_is_heap_type_def
        charly_is_on_heap_def charly_as_basic_def a p basic_type_def generator_finished_def)
  have q: "\<not> charly_is_ptr kSignatureIString"
    by (simp add: charly_is_ptr_def value_consts)
  have n: "\<not> finished_generator [0x1000 \<mapsto> finished_generator_cell] kSignatureIString"
    using q generator_is_ptr by (auto simp add: finished_generator_def)
  have k: "kSignatureIString \<noteq> kFalse" "kSignatureIString \<noteq> kNull" "kSignatureIString \<noteq> kNaN"
    "kSignatureIString \<noteq> charly_create_integer 0" "kSignatureIString \<noteq> charly_create_double 0"
    "kSignatureIString \<noteq> charly_create_double kMaskSignBit"
    by (simp_all add: charly_create_integer_def charly_create_double_def value_consts)
  from p a g q n k
    truthyness_false_iff [of "0xfff8000000001000" "[0x1000 \<mapsto> finished_generator_cell]"]
    truthyness_false_iff [of kSignatureIString "[0x1000 \<mapsto> finished_generator_cell]"]
  show ?thesis by simp
qed

section \<open>Calling native functions\<close>

text \<open>
  \<open>charly_call_cfunction\<close> only reads the native pointer and the declared argument count
  of the \<open>CFunction\<close>. The native code behind the pointer is outside the program, so a
  call is modelled by its description: which pointer is invoked and with which
  arguments. \<open>argv\<close> is the argument array, indexed from 0.
\<close>

datatype call_outcome = Immediate VALUE | Invoke addr "VALUE list"

text \<open>The macro \<open>ARG_n\<close> expands to \<open>argv[0], ..., argv[n - 1]\<close>.\<close>

definition ARG :: "nat \<Rightarrow> (nat \<Rightarrow> VALUE) \<Rightarrow> VALUE list" where
  "ARG n argv = map argv [0..<n]"

text \<open>
  The \<open>switch\<close> over the declared count has one case for each of 0 to 20, each
  invoking the pointer with \<open>ARG_n\<close>; any other count falls through to the final
  \<open>return kNull\<close>.
\<close>

definition charly_call_cfunction ::
  "CFunction \<Rightarrow> 32 word \<Rightarrow> (nat \<Rightarrow> VALUE) \<Rightarrow> call_outcome" where
  "charly_call_cfunction cfunc argc argv =
     (if argc < cfn_argc cfunc then Immediate kNull
      else if unat (cfn_argc cfunc) \<in> set [0..<21]
        then Invoke (cfn_pointer cfunc) (ARG (unat (cfn_argc cfunc)) argv)
      else Immediate kNull)"

text \<open>
  Claim C10. \<open>charly_call_cfunction\<close> returns null without invoking the native pointer
  when the supplied argument count is smaller than the declared one, and also when
  the declared count exceeds 20; whenever the native pointer is invoked, it is the
  pointer of the \<open>CFunction\<close> and it receives exactly the declared number of
  arguments, the first ones of \<open>argv\<close>.
\<close>

theorem call_cfunction_arity:
  "(argc < cfn_argc cfunc \<longrightarrow> charly_call_cfunction cfunc argc argv = Immediate kNull) \<and>
   (20 < cfn_argc cfunc \<longrightarrow> charly_call_cfunction cfunc argc argv = Immediate kNull) \<and>
   (charly_call_cfunction cfunc argc argv = Invoke p args \<longrightarrow>
      p = cfn_pointer cfunc \<and> length args = unat (cfn_argc cfunc) \<and>
      cfn_argc cfunc \<le> argc \<and> cfn_argc cfunc \<le> 20 \<and>
      (\<forall>i < length args. args ! i = argv i))"
proof -
  have "20 < cfn_argc cfunc \<Longrightarrow> \<not> unat (cfn_argc cfunc) < 21"
    by (simp add: word_less_nat_alt)
  moreover have "unat (cfn_argc cfunc) < 21 \<Longrightarrow> cfn_argc cfunc \<le> 20"
    by (simp add: word_le_nat_alt)
  ultimately show ?thesis
    by (auto simp add: charly_call_cfunction_def ARG_def)
qed

abbreviation example_cfunction :: "32 word \<Rightarrow> CFunction" where
  "example_cfunction n \<equiv>
     \<lparr>cfn_name = kNull, cfn_pointer = 4096, cfn_argc = n, cfn_container = [],
      cfn_thread_policy = 3, cfn_push_return_value = True, cfn_halt_after_return = False\<rparr>"

theorem call_cfunction_arity_witness:
  "(1 :: 32 word) < 2 \<and>
   charly_call_cfunction (example_cfunction 2) 1 (\<lambda>i. kNull) = Immediate kNull \<and>
   (20 :: 32 word) < 21 \<and>
   charly_call_cfunction (example_cfunction 21) 30 (\<lambda>i. kNull) = Immediate kNull \<and>
   charly_call_cfunction (example_cfunction 2) 3 (\<lambda>i. of_nat i) = Invoke 4096 [0, 1] \<and>
   length [0 :: VALUE, 1] = unat (2 :: 32 word)"
proof -
  have c: "charly_call_cfunction (example_cfunction 2) 3 (\<lambda>i. of_nat i) = Invoke 4096 [0, 1]"
    by (simp add: charly_call_cfunction_def ARG_def upt_rec)
  from c
    call_cfunction_arity [of 1 "example_cfunction 2" "\<lambda>i. kNull" 0 "[]"]
    call_cfunction_arity [of 30 "example_cfunction 21" "\<lambda>i. kNull" 0 "[]"]
    call_cfunction_arity [of 3 "example_cfunction 2" "\<lambda>i. of_nat i" 4096 "[0, 1]"]
  show ?thesis by simp
qed

section \<open>Immediate strings\<close>

text \<open>
  The source writes the bytes of a short string through a \<open>char*\<close> that points at the
  value itself. \<open>buf_read\<close> and \<open>buf_write\<close> are that access to byte \<open>i\<close> of the
  memory image of a value: on a little-endian machine byte \<open>i\<close> holds bits \<open>8 i\<close> to
  \<open>8 i + 7\<close>, on a big-endian machine byte \<open>7 - i\<close> does.

  Modelled from the spec: \<open>IS_BIG_ENDIAN\<close> is a macro of \<open>defines.h\<close>, which is not
  among the sources; the byte order of the machine is the parameter \<open>big_endian\<close>.
\<close>

definition buf_shift :: "bool \<Rightarrow> nat \<Rightarrow> nat" where
  "buf_shift big_endian i = 8 * (if big_endian then 7 - i else i)"

definition buf_read :: "bool \<Rightarrow> VALUE \<Rightarrow> nat \<Rightarrow> 8 word" where
  "buf_read big_endian val i = ucast (drop_bit (buf_shift big_endian i) val)"

definition buf_write :: "bool \<Rightarrow> nat \<Rightarrow> 8 word \<Rightarrow> VALUE \<Rightarrow> VALUE" where
  "buf_write big_endian i x val =
     (val AND NOT (push_bit (buf_shift big_endian i) (mask 8))) OR
     push_bit (buf_shift big_endian i) (ucast x)"

lemma byte_write_then_read:
  fixes v :: "64 word" and x :: "8 word"
  assumes "i < 8" "j < 8"
  shows "(ucast (drop_bit (8 * j) ((v AND NOT (push_bit (8 * i) (mask 8))) OR push_bit (8 * i) (ucast x))) :: 8 word)
     = (if i = j then x else ucast (drop_bit (8 * j) v))"
proof (cases "i = j")
  case True
  with assms show ?thesis
    by (simp, intro bit_word_eqI) (auto simp add: bit_simps)
next
  case False
  have "\<not> bit x (8 * j + n - 8 * i)" if "n < 8" "8 * i \<le> 8 * j + n" for n
  proof
    assume "bit x (8 * j + n - 8 * i)"
    then have "8 * j + n - 8 * i < 8"
      using bit_imp_le_length [of x "8 * j + n - 8 * i"] by simp
    with that False show False by arith
  qed
  with False assms show ?thesis
    by (simp, intro bit_word_eqI) (auto simp add: bit_simps)
qed

lemma buf_read_write:
  "i < 8 \<Longrightarrow> j < 8 \<Longrightarrow>
   buf_read be (buf_write be i x val) j = (if i = j then x else buf_read be val j)"
  unfolding buf_read_def buf_write_def buf_shift_def
  using byte_write_then_read [of "if be then 7 - i else i" "if be then 7 - j else j" val x]
  by (auto split: if_splits)

lemma byte_write_keeps_signature:
  fixes v :: "64 word" and x :: "8 word"
  assumes "i < 6"
  shows "((v AND NOT (push_bit (8 * i) (mask 8))) OR push_bit (8 * i) (ucast x)) AND NOT (mask 48)
     = v AND NOT (mask 48)"
proof -
  have "\<not> bit x (n - 8 * i)" if "48 \<le> n" for n
  proof
    assume "bit x (n - 8 * i)"
    then have "n - 8 * i < 8"
      using bit_imp_le_length [of x "n - 8 * i"] by simp
    with that assms show False by arith
  qed
  with assms show ?thesis
    by (intro bit_word_eqI) (auto simp add: bit_simps)
qed

lemma buf_write_signature:
  assumes "if be then 2 \<le> i \<and> i < 8 else i < 6"
  shows "buf_write be i x val AND kMaskSignature = val AND kMaskSignature"
  unfolding buf_write_def buf_shift_def kMaskSignature_mask
  using assms byte_write_keeps_signature [of "if be then 7 - i else i" val x]
  by (auto split: if_splits)


text \<open>\<open>String::data\<close> and \<open>String::length\<close> choose the layout by flag \<open>f1\<close>.\<close>

definition String_data :: "MemoryCell \<Rightarrow> String \<Rightarrow> 8 word list" where
  "String_data c str = (if basic_f1 c then sbuf_data str else lbuf_data str)"

definition String_length :: "MemoryCell \<Rightarrow> String \<Rightarrow> 32 word" where
  "String_length c str = (if basic_f1 c then ucast (sbuf_length str) else lbuf_length str)"

text \<open>
  The result of \<open>charly_string_data\<close> is the buffer that can be read from the pointer it
  returns: the bytes of the value from the pointer on, or the buffer of the heap string;
  \<open>None\<close> is the null pointer.
\<close>

definition charly_string_data :: "bool \<Rightarrow> memory \<Rightarrow> VALUE \<Rightarrow> 8 word list option" where
  "charly_string_data big_endian mem val =
     (if charly_is_hstring mem val
        then map_option (\<lambda>(c, str). String_data c str) (charly_as_hstring mem val)
      else if \<not> big_endian then Some (map (buf_read big_endian val) [0..<8])
      else if charly_is_pstring val then Some (map (buf_read big_endian val) [2..<8])
      else if charly_is_istring val then Some (map (buf_read big_endian val) [3..<8])
      else None)"

definition charly_string_length :: "bool \<Rightarrow> memory \<Rightarrow> VALUE \<Rightarrow> 32 word" where
  "charly_string_length big_endian mem val =
     (if charly_is_pstring val then 6
      else if charly_is_istring val then
        (if big_endian then ucast (buf_read big_endian val 2)
         else ucast (buf_read big_endian val 5))
      else if charly_is_hstring mem val then
        (case charly_as_hstring mem val of
           Some (c, str) \<Rightarrow> String_length c str
         | None \<Rightarrow> 0xFFFFFFFF)
      else 0xFFFFFFFF)"

text \<open>\<open>ptr\<close> is the memory the pointer argument refers to: \<open>ptr i\<close> is \<open>ptr[i]\<close>.\<close>

definition charly_create_istring :: "bool \<Rightarrow> (nat \<Rightarrow> 8 word) \<Rightarrow> 8 word \<Rightarrow> VALUE" where
  "charly_create_istring big_endian ptr len =
     (if len = 6 then
        (let val = kSignaturePString in
         if big_endian then
           (let val = buf_write big_endian 2 (ptr 0) val;
                val = buf_write big_endian 3 (ptr 1) val;
                val = buf_write big_endian 4 (ptr 2) val;
                val = buf_write big_endian 5 (ptr 3) val;
                val = buf_write big_endian 6 (ptr 4) val;
                val = buf_write big_endian 7 (ptr 5) val
            in val)
         else
           (let val = buf_write big_endian 0 (ptr 0) val;
                val = buf_write big_endian 1 (ptr 1) val;
                val = buf_write big_endian 2 (ptr 2) val;
                val = buf_write big_endian 3 (ptr 3) val;
                val = buf_write big_endian 4 (ptr 4) val;
                val = buf_write big_endian 5 (ptr 5) val
            in val))
      else if len \<le> 5 then
        (let val = kSignatureIString in
         if big_endian then
           (let val = (if len \<ge> 1 then buf_write big_endian 3 (ptr 0) val else val);
                val = (if len \<ge> 2 then buf_write big_endian 4 (ptr 1) val else val);
                val = (if len \<ge> 3 then buf_write big_endian 5 (ptr 2) val else val);
                val = (if len \<ge> 4 then buf_write big_endian 6 (ptr 3) val else val);
                val = (if len \<ge> 5 then buf_write big_endian 7 (ptr 4) val else val);
                val = buf_write big_endian 2 len val
            in val)
         else
           (let val = (if len \<ge> 1 then buf_write big_endian 0 (ptr 0) val else val);
                val = (if len \<ge> 2 then buf_write big_endian 1 (ptr 1) val else val);
                val = (if len \<ge> 3 then buf_write big_endian 2 (ptr 2) val else val);
                val = (if len \<ge> 4 then buf_write big_endian 3 (ptr 3) val else val);
                val = (if len \<ge> 5 then buf_write big_endian 4 (ptr 4) val else val);
                val = buf_write big_endian 5 len val
            in val))
      else kNull)"

lemma short_list_cases:
  assumes "length s \<le> 6"
  shows "s = [] \<or> (\<exists>a. s = [a]) \<or> (\<exists>a b. s = [a, b]) \<or> (\<exists>a b c. s = [a, b, c]) \<or>
    (\<exists>a b c d. s = [a, b, c, d]) \<or> (\<exists>a b c d e. s = [a, b, c, d, e]) \<or>
    (\<exists>a b c d e f. s = [a, b, c, d, e, f])"
proof -
  from assms have "length s = 0 \<or> length s = 1 \<or> length s = 2 \<or> length s = 3 \<or>
      length s = 4 \<or> length s = 5 \<or> length s = 6" by arith
  then show ?thesis
    by (auto simp add: length_Suc_conv numeral_eq_Suc)
qed

lemma pstring_kinds: "v AND kMaskSignature = kSignaturePString \<Longrightarrow> charly_is_pstring v \<and> \<not> charly_is_istring v \<and> \<not> charly_is_ptr v"
  by (simp add: charly_is_pstring_def charly_is_istring_def charly_is_ptr_def value_consts)

lemma istring_kinds: "v AND kMaskSignature = kSignatureIString \<Longrightarrow> \<not> charly_is_pstring v \<and> charly_is_istring v \<and> \<not> charly_is_ptr v"
  by (simp add: charly_is_pstring_def charly_is_istring_def charly_is_ptr_def value_consts)

lemma string_signature_self: "kSignaturePString AND kMaskSignature = kSignaturePString" "kSignatureIString AND kMaskSignature = kSignatureIString"
  by (simp_all add: value_consts)

lemma not_ptr_not_hstring: "\<not> charly_is_ptr v \<Longrightarrow> \<not> charly_is_hstring mem v"
  by (simp add: charly_is_hstring_def charly_is_heap_type_def charly_is_on_heap_def)

lemma buffer_indices: "[0..<8] = [0,1,2,3,4,5,6,7]" "[2..<8] = [2,3,4,5,6,7]" "[3..<8] = [3,4,5,6,7]"
  by (simp_all add: upt_rec)

lemma packed_little_endian: 
  assumes "s = [a,b,c,d,e,f]"
  shows "charly_create_istring False (\<lambda>i. s ! i) (of_nat (length s)) AND kMaskSignature = kSignaturePString"
    and "take (length s) (map (buf_read False (charly_create_istring False (\<lambda>i. s ! i) (of_nat (length s)))) [0,1,2,3,4,5,6,7]) = s"
  using assms by (simp_all add: charly_create_istring_def Let_def buf_write_signature buf_read_write string_signature_self)

lemma inline_little_endian: 
  assumes "length s \<le> 5"
  shows "charly_create_istring False (\<lambda>i. s ! i) (of_nat (length s)) AND kMaskSignature = kSignatureIString"
    and "take (length s) (map (buf_read False (charly_create_istring False (\<lambda>i. s ! i) (of_nat (length s)))) [0,1,2,3,4,5,6,7]) = s"
    and "buf_read False (charly_create_istring False (\<lambda>i. s ! i) (of_nat (length s))) 5 = of_nat (length s)"
  using assms short_list_cases [of s]
  by (auto simp add: charly_create_istring_def Let_def buf_write_signature buf_read_write string_signature_self)

lemma packed_big_endian: 
  assumes "s = [a,b,c,d,e,f]"
  shows "charly_create_istring True (\<lambda>i. s ! i) (of_nat (length s)) AND kMaskSignature = kSignaturePString"
    and "take (length s) (map (buf_read True (charly_create_istring True (\<lambda>i. s ! i) (of_nat (length s)))) [2,3,4,5,6,7]) = s"
  using assms by (simp_all add: charly_create_istring_def Let_def buf_write_signature buf_read_write string_signature_self)

lemma inline_big_endian: 
  assumes "length s \<le> 5"
  shows "charly_create_istring True (\<lambda>i. s ! i) (of_nat (length s)) AND kMaskSignature = kSignatureIString"
    and "take (length s) (map (buf_read True (charly_create_istring True (\<lambda>i. s ! i) (of_nat (length s)))) [3,4,5,6,7]) = s"
    and "buf_read True (charly_create_istring True (\<lambda>i. s ! i) (of_nat (length s))) 2 = of_nat (length s)"
  using assms short_list_cases [of s]
  by (auto simp add: charly_create_istring_def Let_def buf_write_signature buf_read_write string_signature_self)

lemma ucast_short_length: 
  assumes "n \<le> 6" shows "(ucast (of_nat n :: 8 word) :: 32 word) = of_nat n"
proof -
  from assms have "n = 0 \<or> n = 1 \<or> n = 2 \<or> n = 3 \<or> n = 4 \<or> n = 5 \<or> n = 6" by arith
  then show ?thesis by auto
qed

lemma pstring_data:
  assumes "v AND kMaskSignature = kSignaturePString"
  shows "charly_string_data be mem v =
           Some (map (buf_read be v) (if be then [2,3,4,5,6,7] else [0,1,2,3,4,5,6,7]))"
    and "charly_string_length be mem v = 6"
    and "charly_is_pstring v"
  using pstring_kinds [OF assms] not_ptr_not_hstring [of v mem]
  by (simp_all add: charly_string_data_def charly_string_length_def buffer_indices)

lemma istring_data:
  assumes "v AND kMaskSignature = kSignatureIString"
  shows "charly_string_data be mem v =
           Some (map (buf_read be v) (if be then [3,4,5,6,7] else [0,1,2,3,4,5,6,7]))"
    and "charly_string_length be mem v = ucast (buf_read be v (if be then 2 else 5))"
    and "charly_is_istring v"
  using istring_kinds [OF assms] not_ptr_not_hstring [of v mem]
  by (simp_all add: charly_string_data_def charly_string_length_def buffer_indices)

text \<open>
  Claim C8. For every byte sequence \<open>s\<close> of at most six bytes and either byte order,
  \<open>charly_create_istring\<close> applied to \<open>s\<close> and its length gives a value from which
  \<open>charly_string_data\<close> yields a readable buffer whose first \<open>|s|\<close> bytes are \<open>s\<close> and
  for which \<open>charly_string_length\<close> is \<open>|s|\<close>; for six bytes the value is a packed string,
  for fewer it is an inline string, whose length byte was just read.
\<close>

theorem istring_roundtrip:
  assumes "length s \<le> 6"
  shows "\<exists>buf. charly_string_data be mem (charly_create_istring be (\<lambda>i. s ! i) (of_nat (length s))) = Some buf \<and>
     take (length s) buf = s \<and>
     charly_string_length be mem (charly_create_istring be (\<lambda>i. s ! i) (of_nat (length s))) = of_nat (length s) \<and>
     (if length s = 6
      then charly_is_pstring (charly_create_istring be (\<lambda>i. s ! i) (of_nat (length s)))
      else charly_is_istring (charly_create_istring be (\<lambda>i. s ! i) (of_nat (length s))))"
proof (cases "length s = 6")
  case six: True
  then obtain a b c d e f where s: "s = [a,b,c,d,e,f]"
    using short_list_cases [of s] by auto
  show ?thesis
  proof (cases be)
    case True
    from True six packed_big_endian [OF s] show ?thesis
      by (simp add: pstring_data)
  next
    case False
    from False six packed_little_endian [OF s] show ?thesis
      by (simp add: pstring_data)
  qed
next
  case nsix: False
  with assms have l: "length s \<le> 5" by simp
  show ?thesis
  proof (cases be)
    case True
    from True nsix inline_big_endian [OF l] ucast_short_length [OF assms] show ?thesis
      by (simp add: istring_data)
  next
    case False
    from False nsix inline_little_endian [OF l] ucast_short_length [OF assms] show ?thesis
      by (simp add: istring_data)
  qed
qed

theorem istring_roundtrip_witness:
  "length [0x61, 0x62, 0x63 :: 8 word] \<le> 6 \<and>
   (\<exists>buf. charly_string_data False Map.empty
        (charly_create_istring False (\<lambda>i. [0x61, 0x62, 0x63] ! i) 3) = Some buf \<and>
      take 3 buf = [0x61, 0x62, 0x63]) \<and>
   charly_string_length False Map.empty
        (charly_create_istring False (\<lambda>i. [0x61, 0x62, 0x63] ! i) 3) = 3 \<and>
   charly_is_istring (charly_create_istring False (\<lambda>i. [0x61, 0x62, 0x63] ! i) 3)"
proof -
  have l: "length [0x61, 0x62, 0x63 :: 8 word] \<le> 6" by simp
  from l istring_roundtrip [OF l, of False Map.empty] show ?thesis
    by (auto simp add: numeral_3_eq_3)
qed

section \<open>Prototype lookup\<close>

text \<open>
  The lookup follows \<open>parent_class\<close> pointers through the memory, so it need not return
  when these form a cycle: the outer \<open>option\<close> is \<open>None\<close> when the recursion does not
  end, the inner one is the \<open>std::optional\<close> of the source. \<open>count(symbol)\<close> on the
  container is \<open>map_of\<close> finding the key.
\<close>

partial_function (option) charly_find_prototype_value ::
  "memory \<Rightarrow> Class \<Rightarrow> VALUE \<Rightarrow> VALUE option option" where
  "charly_find_prototype_value mem klass symbol =
     (if charly_is_object mem (cls_prototype klass) then
        (case charly_as_object mem (cls_prototype klass) of
           None \<Rightarrow> Some None
         | Some prototype \<Rightarrow>
             (case map_of (obj_container prototype) symbol of
                Some v \<Rightarrow> Some (Some v)
              | None \<Rightarrow>
                  (if charly_is_class mem (cls_parent_class klass) then
                     (case charly_as_class mem (cls_parent_class klass) of
                        None \<Rightarrow> Some None
                      | Some pklass \<Rightarrow>
                          Option.bind (charly_find_prototype_value mem pklass symbol)
                            (\<lambda>presult. if presult \<noteq> None then Some presult else Some None))
                   else Some None)))
      else Some None)"

definition charly_find_super_method :: "memory \<Rightarrow> Class \<Rightarrow> VALUE \<Rightarrow> VALUE option" where
  "charly_find_super_method mem base symbol =
     (if \<not> charly_is_class mem (cls_parent_class base) then Some kNull
      else
        (case charly_as_class mem (cls_parent_class base) of
           None \<Rightarrow> Some kNull
         | Some parent_class \<Rightarrow>
             map_option (\<lambda>r. case r of Some v \<Rightarrow> v | None \<Rightarrow> kNull)
               (charly_find_prototype_value mem parent_class symbol)))"

text \<open>
  The prototype containers that a lookup starting at a class goes through, in order: the
  container of its own prototype, then those of the chain of its parent class. The chain
  ends at a class whose parent is not a class, and it is empty from a class on whose
  prototype is not an object. A class has such a chain only if its parent pointers do
  not form a cycle.
\<close>

inductive prototype_chain :: "memory \<Rightarrow> Class \<Rightarrow> container list \<Rightarrow> bool" for mem where
  chain_no_prototype:
    "\<not> charly_is_object mem (cls_prototype klass) \<Longrightarrow> prototype_chain mem klass []"
| chain_root:
    "charly_is_object mem (cls_prototype klass) \<Longrightarrow>
     charly_as_object mem (cls_prototype klass) = Some prototype \<Longrightarrow>
     \<not> charly_is_class mem (cls_parent_class klass) \<Longrightarrow>
     prototype_chain mem klass [obj_container prototype]"
| chain_parent:
    "charly_is_object mem (cls_prototype klass) \<Longrightarrow>
     charly_as_object mem (cls_prototype klass) = Some prototype \<Longrightarrow>
     charly_is_class mem (cls_parent_class klass) \<Longrightarrow>
     charly_as_class mem (cls_parent_class klass) = Some pklass \<Longrightarrow>
     prototype_chain mem pklass cs \<Longrightarrow>
     prototype_chain mem klass (obj_container prototype # cs)"

text \<open>The value of the first container of a list that has the symbol.\<close>

fun first_match :: "container list \<Rightarrow> VALUE \<Rightarrow> VALUE option" where
  "first_match [] symbol = None"
| "first_match (c # cs) symbol =
     (case map_of c symbol of Some v \<Rightarrow> Some v | None \<Rightarrow> first_match cs symbol)"

lemma find_chain:
  "prototype_chain mem klass cs \<Longrightarrow>
   charly_find_prototype_value mem klass symbol = Some (first_match cs symbol)"
proof (induction rule: prototype_chain.induct)
  case (chain_no_prototype klass)
  then show ?case by (subst charly_find_prototype_value.simps) simp
next
  case (chain_root klass prototype)
  then show ?case by (subst charly_find_prototype_value.simps) (simp split: option.splits)
next
  case (chain_parent klass prototype pklass cs)
  then show ?case by (subst charly_find_prototype_value.simps) (simp split: option.splits)
qed


abbreviation example_Class :: "VALUE \<Rightarrow> VALUE \<Rightarrow> Class" where
  "example_Class prototype parent \<equiv>
     \<lparr>cls_name = kNull, cls_constructor = kNull, cls_member_properties = [],
      cls_prototype = prototype, cls_parent_class = parent, cls_container = []\<rparr>"

abbreviation plain_cell :: "payload \<Rightarrow> MemoryCell" where
  "plain_cell p \<equiv> \<lparr>basic_f1 = False, basic_f2 = False, basic_mark = False, cell_payload = p\<rparr>"

text \<open>
  Example memory: class \<open>C\<close> at \<open>0x1000\<close> has no prototype object and parent \<open>P\<close>; class
  \<open>P\<close> at \<open>0x2000\<close> has the prototype at \<open>0x3000\<close>, which maps symbol 7 to the integer
  42; class \<open>D\<close> at \<open>0x4000\<close> has the prototype at \<open>0x5000\<close>, which maps symbol 8 to the
  integer 1, and parent \<open>P\<close>.
\<close>

abbreviation example_classes :: memory where
  "example_classes \<equiv>
     [0x1000 \<mapsto> plain_cell (ClassCell (example_Class kNull 0xfff8000000002000)),
      0x2000 \<mapsto> plain_cell (ClassCell (example_Class 0xfff8000000003000 kNull)),
      0x3000 \<mapsto> plain_cell (ObjectCell
         \<lparr>obj_klass = kNull, obj_container = [(0x7ffd000000000007, 0x7ffc00000000002a)]\<rparr>),
      0x4000 \<mapsto> plain_cell (ClassCell (example_Class 0xfff8000000005000 0xfff8000000002000)),
      0x5000 \<mapsto> plain_cell (ObjectCell
         \<lparr>obj_klass = kNull, obj_container = [(0x7ffd000000000008, 0x7ffc000000000001)]\<rparr>)]"

lemma example_pointers:
  "charly_is_ptr 0xfff8000000002000" "charly_as_pointer 0xfff8000000002000 = 0x2000"
  "charly_is_ptr 0xfff8000000003000" "charly_as_pointer 0xfff8000000003000 = 0x3000"
  "charly_is_ptr 0xfff8000000005000" "charly_as_pointer 0xfff8000000005000 = 0x5000"
  "\<not> charly_is_ptr kNull"
  by (simp_all add: charly_is_ptr_def charly_as_pointer_def value_consts)

lemmas heap_tests = charly_is_object_def charly_is_class_def charly_is_heap_type_def
  charly_is_on_heap_def charly_as_basic_def charly_as_object_def charly_as_class_def basic_type_def

text \<open>
  Claim C9, as stated, fails at class \<open>C\<close> of the example: symbol 7 is absent from its own
  prototype (it has none) and its parent \<open>P\<close> has the symbol, yet the lookup on \<open>C\<close>
  finds nothing, because the search of the parent is nested in the test that the own
  prototype is an object.
\<close>

theorem prototype_lookup_counterexample:
  "charly_as_class example_classes (cls_parent_class (example_Class kNull 0xfff8000000002000))
     = Some (example_Class 0xfff8000000003000 kNull) \<and>
   charly_find_prototype_value example_classes
      (example_Class 0xfff8000000003000 kNull) 0x7ffd000000000007
     = Some (Some 0x7ffc00000000002a) \<and>
   charly_find_prototype_value example_classes
      (example_Class kNull 0xfff8000000002000) 0x7ffd000000000007
     = Some None"
  by (simp add: charly_find_prototype_value.simps heap_tests example_pointers)

text \<open>
  Claim C9, amended. Where the parent pointers of a class do not form a cycle, prototype
  lookup returns the first match along the chain of prototype containers: the own
  prototype first and, when the symbol is absent there, the prototypes of the parent
  classes in order; the chain ends at the first class whose prototype is not an object,
  whose parents are not consulted. Super-method lookup performs the same search starting
  at the parent class, skipping the own prototype, and gives null when nothing is found
  or when the parent is not a class.
\<close>

theorem prototype_lookup_first_match:
  "(prototype_chain mem klass cs \<longrightarrow>
      charly_find_prototype_value mem klass symbol = Some (first_match cs symbol)) \<and>
   (charly_is_class mem (cls_parent_class base) \<and>
    charly_as_class mem (cls_parent_class base) = Some parent \<and>
    prototype_chain mem parent ps \<longrightarrow>
      charly_find_super_method mem base symbol =
        Some (case first_match ps symbol of Some v \<Rightarrow> v | None \<Rightarrow> kNull)) \<and>
   (\<not> charly_is_class mem (cls_parent_class base) \<longrightarrow>
      charly_find_super_method mem base symbol = Some kNull)"
  by (auto simp add: find_chain charly_find_super_method_def)

theorem prototype_lookup_first_match_witness:
  "prototype_chain example_classes (example_Class 0xfff8000000005000 0xfff8000000002000)
     [[(0x7ffd000000000008, 0x7ffc000000000001)], [(0x7ffd000000000007, 0x7ffc00000000002a)]] \<and>
   charly_find_prototype_value example_classes
     (example_Class 0xfff8000000005000 0xfff8000000002000) 0x7ffd000000000007
     = Some (Some 0x7ffc00000000002a) \<and>
   charly_find_prototype_value example_classes
     (example_Class 0xfff8000000005000 0xfff8000000002000) 0x7ffd000000000008
     = Some (Some 0x7ffc000000000001) \<and>
   charly_is_class example_classes 0xfff8000000002000 \<and>
   charly_as_class example_classes 0xfff8000000002000
     = Some (example_Class 0xfff8000000003000 kNull) \<and>
   prototype_chain example_classes (example_Class 0xfff8000000003000 kNull)
     [[(0x7ffd000000000007, 0x7ffc00000000002a)]] \<and>
   charly_find_super_method example_classes
     (example_Class 0xfff8000000005000 0xfff8000000002000) 0x7ffd000000000007
     = Some 0x7ffc00000000002a \<and>
   charly_find_super_method example_classes
     (example_Class 0xfff8000000005000 0xfff8000000002000) 0x7ffd000000000008
     = Some kNull \<and>
   \<not> charly_is_class example_classes kNull \<and>
   charly_find_super_method example_classes
     (example_Class 0xfff8000000003000 kNull) 0x7ffd000000000007 = Some kNull"
proof -
  have p: "prototype_chain example_classes (example_Class 0xfff8000000003000 kNull)
     [obj_container \<lparr>obj_klass = kNull, obj_container = [(0x7ffd000000000007, 0x7ffc00000000002a)]\<rparr>]"
    by (rule chain_root) (simp_all add: heap_tests example_pointers)
  have d: "prototype_chain example_classes (example_Class 0xfff8000000005000 0xfff8000000002000)
     (obj_container \<lparr>obj_klass = kNull, obj_container = [(0x7ffd000000000008, 0x7ffc000000000001)]\<rparr>
      # [obj_container \<lparr>obj_klass = kNull, obj_container = [(0x7ffd000000000007, 0x7ffc00000000002a)]\<rparr>])"
    by (rule chain_parent [OF _ _ _ _ p]) (simp_all add: heap_tests example_pointers)
  have c: "charly_is_class example_classes 0xfff8000000002000"
    "charly_as_class example_classes 0xfff8000000002000 = Some (example_Class 0xfff8000000003000 kNull)"
    "\<not> charly_is_class example_classes kNull"
    by (simp_all add: heap_tests example_pointers)
  from p d c
    prototype_lookup_first_match [of example_classes
      "example_Class 0xfff8000000005000 0xfff8000000002000"
      "[[(0x7ffd000000000008, 0x7ffc000000000001)], [(0x7ffd000000000007, 0x7ffc00000000002a)]]"
      "0x7ffd000000000007"
      "example_Class 0xfff8000000005000 0xfff8000000002000"
      "example_Class 0xfff8000000003000 kNull"
      "[[(0x7ffd000000000007, 0x7ffc00000000002a)]]"]
    prototype_lookup_first_match [of example_classes
      "example_Class 0xfff8000000005000 0xfff8000000002000"
      "[[(0x7ffd000000000008, 0x7ffc000000000001)], [(0x7ffd000000000007, 0x7ffc00000000002a)]]"
      "0x7ffd000000000008"
      "example_Class 0xfff8000000005000 0xfff8000000002000"
      "example_Class 0xfff8000000003000 kNull"
      "[[(0x7ffd000000000007, 0x7ffc00000000002a)]]"]
    prototype_lookup_first_match [of example_classes
      "example_Class 0xfff8000000003000 kNull"
      "[[(0x7ffd000000000007, 0x7ffc00000000002a)]]"
      "0x7ffd000000000007"
      "example_Class 0xfff8000000003000 kNull"
      "example_Class 0xfff8000000003000 kNull"
      "[]"]
  show ?thesis by simp
qed

section \<open>Numbers\<close>

subsection \<open>Conversions between \<open>int64_t\<close> and \<open>double\<close>\<close>

text \<open>
  The conversions are done by the C++ compiler and by \<open>modf\<close>; they are written out here
  on the bit pattern of the double. \<open>int64_to_double\<close> is the conversion of an
  \<open>int64_t\<close> to the nearest double, ties to even: \<open>e\<close> is the position of the leading
  bit of the magnitude and \<open>q\<close> its 53 leading bits, rounded; a carry out of the rounding
  moves on into the exponent field.
\<close>

fun bit_length :: "nat \<Rightarrow> nat" where
  "bit_length n = (if n = 0 then 0 else Suc (bit_length (n div 2)))"

declare bit_length.simps [simp del]

definition round_half_even :: "nat \<Rightarrow> nat \<Rightarrow> nat" where
  "round_half_even m s =
     (let q = m div 2 ^ s; r = m mod 2 ^ s; h = 2 ^ (s - 1)
      in if h < r \<or> (r = h \<and> odd q) then q + 1 else q)"

definition int64_to_double :: "64 word \<Rightarrow> double" where
  "int64_to_double w =
     (let k = sint w in
      if k = 0 then 0
      else
        (let m = nat \<bar>k\<bar>;
             e = bit_length m - 1;
             q = (if e \<le> 52 then m * 2 ^ (52 - e) else round_half_even m (e - 52))
         in (if k < 0 then kMaskSignBit else 0) OR word_of_nat ((1022 + e) * 2 ^ 52 + q)))"

definition double_exponent :: "double \<Rightarrow> nat" where
  "double_exponent d = unat (drop_bit 52 d AND mask 11)"

definition double_mantissa :: "double \<Rightarrow> nat" where
  "double_mantissa d = unat (d AND mask 52)"

text \<open>
  The integer a double is equal to, when it is finite and has no fractional part. For a
  finite double this is the test \<open>modf(value, &intpart) == 0.0\<close> together with the value
  \<open>(int64_t) value\<close> of the cast; an infinity passes the \<open>modf\<close> test of the source but
  fails its range test, so giving \<open>None\<close> for it leads to the same branch.
\<close>

definition double_integral_value :: "double \<Rightarrow> int option" where
  "double_integral_value d =
     (let e = double_exponent d;
          m = double_mantissa d;
          sg = (if bit d 63 then - 1 else 1)
      in if e = 2047 then None
         else if e = 0 then (if m = 0 then Some 0 else None)
         else if e < 1023 then None
         else if 1075 \<le> e then Some (sg * int ((2 ^ 52 + m) * 2 ^ (e - 1075)))
         else if (2 ^ 52 + m) mod 2 ^ (1075 - e) = 0
           then Some (sg * int ((2 ^ 52 + m) div 2 ^ (1075 - e)))
         else None)"

definition charly_int_to_double :: "VALUE \<Rightarrow> double" where
  "charly_int_to_double v = int64_to_double (charly_int_to_int64 v)"

definition charly_number_to_double :: "VALUE \<Rightarrow> double" where
  "charly_number_to_double v =
     (if charly_is_float v then charly_double_to_double v else charly_int_to_double v)"

text \<open>The overloads of \<open>charly_create_number\<close> for \<open>int64_t\<close> and for \<open>double\<close>.\<close>

definition charly_create_number_int64 :: "64 word \<Rightarrow> VALUE" where
  "charly_create_number_int64 v =
     (if kMaxInt \<le> sint v \<or> sint v \<le> kMinInt then charly_create_double (int64_to_double v)
      else charly_create_integer v)"

definition charly_create_number_double :: "double \<Rightarrow> VALUE" where
  "charly_create_number_double d =
     (case double_integral_value d of
        Some n \<Rightarrow>
          (if n \<le> kMaxInt \<and> kMinInt \<le> n then charly_create_integer (word_of_int n)
           else charly_create_double d)
      | None \<Rightarrow> charly_create_double d)"

subsection \<open>Binary arithmetic\<close>

text \<open>
  The arithmetic of \<open>int64_t\<close> is that of 64-bit words: an overflow wraps around, as
  the machine instruction does. The arithmetic of doubles (\<open>+\<close>, \<open>-\<close>, \<open>*\<close> and
  \<open>std::fmod\<close>) is done by the hardware and the C library; each operation is a
  parameter on bit patterns.
\<close>

definition charly_add_number :: "(double \<Rightarrow> double \<Rightarrow> double) \<Rightarrow> VALUE \<Rightarrow> VALUE \<Rightarrow> VALUE" where
  "charly_add_number fp_add left right =
     (if charly_is_int left \<and> charly_is_int right
        then charly_create_number_int64 (charly_int_to_int64 left + charly_int_to_int64 right)
      else charly_create_number_double
             (fp_add (charly_number_to_double left) (charly_number_to_double right)))"

definition charly_sub_number :: "(double \<Rightarrow> double \<Rightarrow> double) \<Rightarrow> VALUE \<Rightarrow> VALUE \<Rightarrow> VALUE" where
  "charly_sub_number fp_sub left right =
     (if charly_is_int left \<and> charly_is_int right
        then charly_create_number_int64 (charly_int_to_int64 left - charly_int_to_int64 right)
      else charly_create_number_double
             (fp_sub (charly_number_to_double left) (charly_number_to_double right)))"

definition charly_mul_number :: "(double \<Rightarrow> double \<Rightarrow> double) \<Rightarrow> VALUE \<Rightarrow> VALUE \<Rightarrow> VALUE" where
  "charly_mul_number fp_mul left right =
     (if charly_is_int left \<and> charly_is_int right
        then charly_create_number_int64 (charly_int_to_int64 left * charly_int_to_int64 right)
      else charly_create_number_double
             (fp_mul (charly_number_to_double left) (charly_number_to_double right)))"

text \<open>
  The operator \<open>%\<close> on \<open>int64_t\<close> truncates towards zero: the remainder has the sign of
  the dividend. The machine instruction traps on a zero divisor and on the one quotient
  that overflows; \<open>None\<close> is that trap.
\<close>

definition truncated_rem :: "int \<Rightarrow> int \<Rightarrow> int" where
  "truncated_rem a b = sgn a * (\<bar>a\<bar> mod \<bar>b\<bar>)"

definition int64_rem :: "64 word \<Rightarrow> 64 word \<Rightarrow> 64 word option" where
  "int64_rem a b =
     (if b = 0 then None
      else if sint a = - (2 ^ 63) \<and> sint b = - 1 then None
      else Some (word_of_int (truncated_rem (sint a) (sint b))))"

definition charly_mod_number ::
  "(double \<Rightarrow> double \<Rightarrow> double) \<Rightarrow> VALUE \<Rightarrow> VALUE \<Rightarrow> VALUE option" where
  "charly_mod_number fmod left right =
     (if charly_is_int left \<and> charly_is_int right then
        (if charly_int_to_int64 right = 0 then Some kNaN
         else map_option charly_create_number_int64
                (int64_rem (charly_int_to_int64 left) (charly_int_to_int64 right)))
      else Some (charly_create_number_double
                   (fmod (charly_number_to_double left) (charly_number_to_double right))))"

lemma int_to_int64_signed_take_bit: "charly_int_to_int64 v = signed_take_bit 47 v"
  unfolding charly_int_to_int64_def integer_sign_test
  unfolding kMaskInteger_mask kSignBlock_mask
  by (intro bit_word_eqI) (auto simp add: bit_simps min_def split: if_splits dest: nat_47_48)

lemma int_to_int64_range:
  "- (2 ^ 47) \<le> sint (charly_int_to_int64 v)" "sint (charly_int_to_int64 v) < 2 ^ 47"
  unfolding int_to_int64_signed_take_bit by (rule signed_take_bit_47_range)+

lemma sint_word_of_int_64:
  "- (2 ^ 63) \<le> k \<Longrightarrow> k < 2 ^ 63 \<Longrightarrow> sint (word_of_int k :: 64 word) = k"
  by (simp add: sint_sbintrunc' signed_take_bit_int_eq_self)

lemma truncated_rem_bound:
  assumes "b \<noteq> 0"
  shows "\<bar>truncated_rem a b\<bar> < \<bar>b\<bar>"
proof -
  have nn: "0 \<le> \<bar>a\<bar> mod \<bar>b\<bar>"
    using assms by simp
  have "\<bar>truncated_rem a b\<bar> = \<bar>sgn a\<bar> * (\<bar>a\<bar> mod \<bar>b\<bar>)"
    using nn by (simp add: truncated_rem_def abs_mult del: pos_mod_sign)
  also have "\<dots> \<le> \<bar>a\<bar> mod \<bar>b\<bar>"
    by (cases "a = 0") (simp_all add: abs_sgn_eq)
  also have "\<dots> < \<bar>b\<bar>"
    using assms by simp
  finally show ?thesis .
qed

lemma create_integer_of_int64:
  assumes "charly_is_int v"
  shows "charly_create_integer (charly_int_to_int64 v) = v"
proof -
  have "signed_take_bit 47 v AND mask 48 = v AND mask 48"
    by (intro bit_word_eqI) (auto simp add: bit_simps min_def dest: nat_47_48)
  moreover have "v AND NOT (mask 48) = kSignatureInteger"
    using assms by (simp add: charly_is_int_def kMaskSignature_mask)
  ultimately show ?thesis
    using payload_signature_split [of v]
    by (simp add: charly_create_integer_def int_to_int64_signed_take_bit kMaskInteger_mask
        or.commute)
qed

lemma create_integer_is_int: "charly_is_int (charly_create_integer v)"
  unfolding charly_is_int_def charly_create_integer_def kMaskInteger_mask kMaskSignature_mask
    kSignatureInteger_mask
  by (intro bit_word_eqI) (auto simp add: bit_simps)

subsection \<open>Numbers and the doubles they stand for\<close>

text \<open>
  The exponent and the mantissa of a double as numbers, and the bounds of \<open>bit_length\<close>.
\<close>

lemma double_exponent_unat: "double_exponent d = unat d div 2 ^ 52 mod 2 ^ 11"
  unfolding double_exponent_def take_bit_eq_mask [symmetric] unsigned_take_bit_eq unat_drop_bit_eq
  by (simp add: take_bit_eq_mod drop_bit_eq_div)

lemma double_mantissa_unat: "double_mantissa d = unat d mod 2 ^ 52"
  unfolding double_mantissa_def take_bit_eq_mask [symmetric] unsigned_take_bit_eq
  by (simp add: take_bit_eq_mod)

lemma bit_length_bounds:
  "0 < m \<Longrightarrow> 2 ^ (bit_length m - 1) \<le> m \<and> m < 2 ^ bit_length m"
proof (induction m rule: bit_length.induct)
  case (1 n)
  show ?case
  proof (cases "n div 2 = 0")
    case True
    with 1(2) have "n = 1" by (simp add: div_eq_0_iff) 
    then show ?thesis by (simp add: bit_length.simps)
  next
    case False
    with 1 have ih: "2 ^ (bit_length (n div 2) - 1) \<le> n div 2" "n div 2 < 2 ^ bit_length (n div 2)"
      by simp_all
    from False have p: "0 < bit_length (n div 2)"
      by (simp add: bit_length.simps [of "n div 2"])
    have b: "bit_length n = Suc (bit_length (n div 2))"
      using 1(2) by (simp add: bit_length.simps [of n])
    define A :: nat where "A = 2 ^ (bit_length (n div 2) - 1)"
    define B :: nat where "B = 2 ^ bit_length (n div 2)"
    from p have "(2 :: nat) ^ (bit_length n - 1) = 2 * A" "(2 :: nat) ^ bit_length n = 2 * B"
      unfolding b A_def B_def by (cases "bit_length (n div 2)"; simp)+
    moreover from ih have "2 * A \<le> n \<and> n < 2 * B"
      unfolding A_def [symmetric] B_def [symmetric] by arith
    ultimately show ?thesis
      by simp
  qed
qed

text \<open>
  The conversion of a 48-bit integer to a double is exact: the double has the value of the
  integer and its sign, and is finite. The integer 0 becomes the zero with a clear sign
  bit.
\<close>

lemma push_bit_and_of_nat:
  "\<not> bit N n \<Longrightarrow> (push_bit n 1 :: 64 word) AND word_of_nat N = 0"
  by (intro bit_word_eqI) (auto simp add: bit_simps)

lemma sign_or_unat:
  assumes "N < 2 ^ 63"
  shows "unat ((if s then kMaskSignBit else 0) OR (word_of_nat N :: 64 word))
     = (if s then 2 ^ 63 else 0) + N"
proof -
  have u: "unat (word_of_nat N :: 64 word) = N"
    using assms by (simp add: unat_of_nat)
  have k: "kMaskSignBit = (push_bit 63 1 :: 64 word)"
    by (simp add: kMaskSignBit_def)
  have n: "\<not> bit N 63"
    using assms by (simp add: bit_iff_odd)
  have "(push_bit 63 1 :: 64 word) AND word_of_nat N = 0"
    using n by (rule push_bit_and_of_nat)
  then have "(push_bit 63 1 :: 64 word) OR word_of_nat N = push_bit 63 1 + word_of_nat N"
    by (rule disjunctive_add_eq_or [symmetric])
  moreover have "unat ((push_bit 63 1 :: 64 word) + word_of_nat N) = 2 ^ 63 + N"
    using assms unat_add_lem [of "push_bit 63 1 :: 64 word" "word_of_nat N"] by (simp add: u)
  ultimately show ?thesis
    by (simp add: k u del: push_bit_of_1)
qed

lemma sign_or_bit:
  assumes "N < 2 ^ 63"
  shows "bit ((if s then kMaskSignBit else 0) OR (word_of_nat N :: 64 word)) 63 \<longleftrightarrow> s"
proof -
  have n: "\<not> bit N 63"
    using assms by (simp add: bit_iff_odd)
  have k: "kMaskSignBit = (push_bit 63 1 :: 64 word)"
    by (simp add: kMaskSignBit_def)
  show ?thesis
    using n unfolding k by (auto simp add: bit_simps simp del: push_bit_of_1)
qed

lemma int64_to_double_exact:
  assumes "- (2 ^ 47) \<le> sint w" and "sint w < 2 ^ 47"
  shows "double_integral_value (int64_to_double w) = Some (sint w)"
    and "bit (int64_to_double w) 63 \<longleftrightarrow> sint w < 0"
    and "double_exponent (int64_to_double w) < 2047"
proof -
  define k where "k = sint w"
  define m where "m = nat \<bar>k\<bar>"
  define e where "e = bit_length m - 1"
  define q where "q = m * 2 ^ (52 - e)"
  define N where "N = (1022 + e) * 2 ^ 52 + q"
  define d where "d = (if k < 0 then kMaskSignBit else 0) OR (word_of_nat N :: 64 word)"
  have "double_integral_value (int64_to_double w) = Some (sint w) \<and>
    (bit (int64_to_double w) 63 \<longleftrightarrow> sint w < 0) \<and>
    double_exponent (int64_to_double w) < 2047"
  proof (cases "k = 0")
    case True
    then show ?thesis
      by (simp add: int64_to_double_def k_def [symmetric] double_integral_value_def
          double_exponent_unat double_mantissa_unat)
  next
    case False
    then have mpos: "0 < m" by (simp add: m_def)
    from assms have mle: "m \<le> 2 ^ 47"
      unfolding m_def k_def by simp
    from bit_length_bounds [OF mpos] have lo: "2 ^ e \<le> m" and hi: "m < 2 ^ Suc e"
      unfolding e_def using mpos by (cases "bit_length m"; simp add: bit_length.simps)+
    have e47: "e \<le> 47"
    proof (rule ccontr)
      assume "\<not> e \<le> 47"
      then have "48 \<le> e" by simp
      then have "(2 :: nat) ^ 48 \<le> 2 ^ e" by (rule power_increasing) simp
      with lo mle show False by simp
    qed
    have split: "(2 :: nat) ^ 52 = 2 ^ e * 2 ^ (52 - e)"
      using e47 by (simp flip: power_add)
    have qlo: "2 ^ 52 \<le> q"
      unfolding q_def split using lo by simp
    have qhi: "q < 2 ^ 53"
    proof -
      have "q < 2 ^ Suc e * 2 ^ (52 - e)"
        unfolding q_def using hi by simp
      also have "\<dots> = 2 ^ 53"
        using e47 by (simp flip: power_add)
      finally show ?thesis .
    qed
    have N: "N = (1023 + e) * 2 ^ 52 + (q - 2 ^ 52)"
      unfolding N_def using qlo by (simp add: algebra_simps)
    have r: "q - 2 ^ 52 < 2 ^ 52"
      using qhi by simp
    have Ndiv: "N div 2 ^ 52 = 1023 + e"
      unfolding N using r by simp
    have Nmod: "N mod 2 ^ 52 = q - 2 ^ 52"
      unfolding N mod_mult_self3 using r by (rule mod_less)
    have Nhi: "N < 2 ^ 63"
    proof -
      have "N < (1024 + e) * 2 ^ 52"
        unfolding N using r by (simp add: algebra_simps)
      also have "\<dots> \<le> 2048 * 2 ^ 52"
        using e47 by simp
      finally show ?thesis by simp
    qed
    have dd: "int64_to_double w = d"
    proof -
      from False have f: "(k = 0) = False" by simp
      from e47 have g: "(e \<le> 52) = True" by simp
      show ?thesis
        unfolding int64_to_double_def Let_def k_def [symmetric] m_def [symmetric]
          e_def [symmetric] f g if_False if_True q_def [symmetric] N_def [symmetric] d_def ..
    qed
    have ud: "unat d = (if k < 0 then 2 ^ 63 else 0) + N"
      unfolding d_def by (rule sign_or_unat [OF Nhi])
    have ex: "double_exponent d = 1023 + e"
    proof -
      have "unat d div 2 ^ 52 = (if k < 0 then 2 ^ 11 else 0) + (1023 + e)"
        unfolding ud using Ndiv by (simp add: div_add1_eq)
      moreover have "(2 ^ 11 + (1023 + e)) mod 2 ^ 11 = 1023 + e" "(1023 + e) mod 2 ^ 11 = 1023 + e"
        using e47 by (simp_all only: mod_add_self1) simp_all
      ultimately show ?thesis
        unfolding double_exponent_unat by (simp split: if_splits)
    qed
    have ma: "double_mantissa d = q - 2 ^ 52"
    proof -
      have "unat d mod 2 ^ 52 = N mod 2 ^ 52"
        unfolding ud by (simp add: mod_add_eq [symmetric])
      then show ?thesis
        unfolding double_mantissa_unat Nmod .
    qed
    have sg: "bit d 63 \<longleftrightarrow> k < 0"
      unfolding d_def by (rule sign_or_bit [OF Nhi])
    have qm: "q mod 2 ^ (52 - e) = 0" "q div 2 ^ (52 - e) = m"
      unfolding q_def by simp_all
    have km: "(if k < 0 then - 1 else 1) * int m = k"
      unfolding m_def by simp
    have "double_integral_value d = Some (sint w)"
      unfolding double_integral_value_def ex ma
      using e47 qlo qm km by (simp add: Let_def sg k_def)
    moreover have "bit d 63 \<longleftrightarrow> sint w < 0"
      unfolding sg k_def ..
    moreover have "double_exponent d < 2047"
      unfolding ex using e47 by simp
    ultimately show ?thesis
      unfolding dd by simp
  qed
  then show "double_integral_value (int64_to_double w) = Some (sint w)"
    and "bit (int64_to_double w) 63 \<longleftrightarrow> sint w < 0"
    and "double_exponent (int64_to_double w) < 2047"
    by simp_all
qed


text \<open>
  A finite double is a float value, and it is finite exactly when its exponent field is
  not 2047.
\<close>

lemma finite_is_float: "double_is_finite x \<Longrightarrow> charly_is_float x"
proof -
  assume f: "double_is_finite x"
  have "x AND kMaskExponentBits = kMaskExponentBits" if "(NOT x) AND kMaskExponentBits = 0"
  proof (rule bit_word_eqI)
    fix n
    assume "n < LENGTH(64)"
    from that have "\<not> bit ((NOT x) AND kMaskExponentBits) n"
      by simp
    then show "bit (x AND kMaskExponentBits) n \<longleftrightarrow> bit kMaskExponentBits n"
      using \<open>n < LENGTH(64)\<close> by (auto simp add: bit_simps)
  qed
  with f show ?thesis
    unfolding double_is_finite_def charly_is_float_def by blast
qed

lemma double_finite_exponent: "double_is_finite x \<longleftrightarrow> double_exponent x \<noteq> 2047"
proof -
  define y where "y = drop_bit 52 x AND mask 11"
  have a: "x AND kMaskExponentBits = push_bit 52 y"
    unfolding kMaskExponentBits_mask y_def
    by (intro bit_word_eqI) (auto simp add: bit_simps)
  have "push_bit 52 y = push_bit 52 (mask 11 :: 64 word) \<longleftrightarrow> y = mask 11"
  proof
    assume eq: "push_bit 52 y = push_bit 52 (mask 11 :: 64 word)"
    show "y = mask 11"
    proof (rule bit_word_eqI)
      fix n
      assume "n < LENGTH(64)"
      show "bit y n \<longleftrightarrow> bit (mask 11 :: 64 word) n"
      proof (cases "n < 11")
        case True
        from eq have "bit (push_bit 52 y) (52 + n) \<longleftrightarrow> bit (push_bit 52 (mask 11 :: 64 word)) (52 + n)"
          by simp
        with True show ?thesis
          by (simp add: bit_simps)
      next
        case False
        then show ?thesis
          by (simp add: y_def bit_simps)
      qed
    qed
  qed simp
  moreover have "y = mask 11 \<longleftrightarrow> unat y = 2047"
  proof -
    have "unat (mask 11 :: 64 word) = 2047"
      by (simp add: mask_eq_exp_minus_1)
    then show ?thesis
      by (metis word_unat_eq_iff)
  qed
  ultimately show ?thesis
    unfolding double_is_finite_def a double_exponent_def y_def [symmetric]
    by (simp add: kMaskExponentBits_mask)
qed

lemma create_double_cases:
  "charly_create_double x = (if double_is_finite x then x else kBitsNaN)"
  by (simp add: charly_create_double_def double_is_finite_def)

text \<open>
  What it is for a number to be converted to a double, and for a double to be returned as
  a number, stated on the values and not by the functions of the source.
  \<open>is_double_of v d\<close>: the double \<open>d\<close> is the number \<open>v\<close>, that is the bits of \<open>v\<close> themselves
  when \<open>v\<close> is a float and otherwise the double that has the value and the sign of the
  integer \<open>v\<close>. \<open>is_number_of x res\<close>: the value \<open>res\<close> is the double \<open>x\<close> as a number, that is
  the integer-tagged value of the same numeric value when \<open>x\<close> is an integer of the 48-bit
  range, the float \<open>x\<close> itself when \<open>x\<close> is any other finite double, and the canonical NaN
  when \<open>x\<close> is a NaN or an infinity.
\<close>

definition is_double_of :: "VALUE \<Rightarrow> double \<Rightarrow> bool" where
  "is_double_of v d \<longleftrightarrow>
     (if charly_is_float v then d = v
      else double_integral_value d = Some (sint (charly_int_to_int64 v)) \<and>
           (bit d 63 \<longleftrightarrow> sint (charly_int_to_int64 v) < 0))"

definition is_number_of :: "double \<Rightarrow> VALUE \<Rightarrow> bool" where
  "is_number_of x res \<longleftrightarrow>
     (case double_integral_value x of
        Some n \<Rightarrow>
          if kMinInt \<le> n \<and> n \<le> kMaxInt
          then charly_is_int res \<and> sint (charly_int_to_int64 res) = n
          else charly_is_float res \<and> charly_double_to_double res = x
      | None \<Rightarrow>
          if double_is_finite x then charly_is_float res \<and> charly_double_to_double res = x
          else res = kNaN)"

text \<open>
  \<open>charly_number_to_double\<close> and the overload of \<open>charly_create_number\<close> for doubles do
  these two conversions.
\<close>

lemma number_to_double_is_double_of: "is_double_of v (charly_number_to_double v)"
  unfolding is_double_of_def charly_number_to_double_def charly_int_to_double_def
  using int64_to_double_exact(1,2) [OF int_to_int64_range [of v]]
  by (simp add: charly_double_to_double_def BITCAST_DOUBLE_def)

lemma create_number_double_is_number_of: "is_number_of x (charly_create_number_double x)"
proof (cases "double_integral_value x")
  case None
  then show ?thesis
    by (simp add: is_number_of_def charly_create_number_double_def create_double_cases
        finite_is_float charly_double_to_double_def BITCAST_DOUBLE_def kNaN_def)
next
  case (Some n)
  then have "double_exponent x \<noteq> 2047"
    by (auto simp add: double_integral_value_def Let_def split: if_splits)
  then have f: "double_is_finite x"
    by (simp add: double_finite_exponent)
  show ?thesis
  proof (cases "kMinInt \<le> n \<and> n \<le> kMaxInt")
    case True
    then have "sint (word_of_int n :: 64 word) = n"
      by (intro sint_word_of_int_64) (simp_all add: kMinInt_def kMaxInt_def)
    with True have "charly_int_to_int64 (charly_create_integer (word_of_int n)) = word_of_int n"
      by (intro int_to_int64_create_integer_id) simp_all
    with True Some \<open>sint (word_of_int n :: 64 word) = n\<close> show ?thesis
      by (simp add: is_number_of_def charly_create_number_double_def create_integer_is_int)
  next
    case False
    with Some f show ?thesis
      by (auto simp add: is_number_of_def charly_create_number_double_def create_double_cases
          finite_is_float charly_double_to_double_def BITCAST_DOUBLE_def)
  qed
qed

text \<open>
  Claim C7. For two integer operands \<open>charly_mod_number\<close> returns the canonical NaN when
  the right operand is zero, and otherwise the truncated remainder of the two integers,
  as \<open>charly_create_number\<close> encodes it: an integer-tagged value, except for the one
  remainder \<open>kMaxInt\<close>, which \<open>charly_create_number\<close> stores as the double of the same
  value. When an operand is not an integer the result is \<open>fmod\<close> of both operands
  converted to double: for two numbers of which one is a float, the arguments of \<open>fmod\<close>
  are the doubles the operands stand for (a float operand itself, the double of the same
  value for an integer operand), and the result is the value of \<open>fmod\<close> as a number (an
  integer-tagged value if it is an integer of the 48-bit range, the float itself if it is
  any other finite double, the canonical NaN otherwise). In no case does the integer
  division trap: the result is never \<open>None\<close>.
\<close>

theorem mod_number_remainder:
  "(charly_is_int left \<and> charly_is_int right \<longrightarrow>
      charly_mod_number fmod left right =
        Some (if charly_int_to_int64 right = 0 then kNaN
              else charly_create_number_int64
                     (word_of_int (truncated_rem (sint (charly_int_to_int64 left))
                                                 (sint (charly_int_to_int64 right)))))) \<and>
   (charly_is_int left \<and> charly_is_int right \<and> charly_int_to_int64 right \<noteq> 0 \<and>
    truncated_rem (sint (charly_int_to_int64 left)) (sint (charly_int_to_int64 right)) \<noteq> kMaxInt \<longrightarrow>
      charly_mod_number fmod left right =
        Some (charly_create_integer
                (word_of_int (truncated_rem (sint (charly_int_to_int64 left))
                                            (sint (charly_int_to_int64 right)))))) \<and>
   (\<not> (charly_is_int left \<and> charly_is_int right) \<longrightarrow>
      charly_mod_number fmod left right =
        Some (charly_create_number_double
                (fmod (charly_number_to_double left) (charly_number_to_double right)))) \<and>
   (charly_is_number left \<and> charly_is_number right \<and>
    \<not> (charly_is_int left \<and> charly_is_int right) \<longrightarrow>
      (\<exists>a b res. is_double_of left a \<and> is_double_of right b \<and>
         charly_mod_number fmod left right = Some res \<and> is_number_of (fmod a b) res)) \<and>
   charly_mod_number fmod left right \<noteq> None"
proof -
  define a where "a = charly_int_to_int64 left"
  define b where "b = charly_int_to_int64 right"
  define r where "r = truncated_rem (sint a) (sint b)"
  have ra: "- (2 ^ 47) \<le> sint a" "sint a < 2 ^ 47" and rb: "- (2 ^ 47) \<le> sint b" "sint b < 2 ^ 47"
    unfolding a_def b_def by (rule int_to_int64_range)+
  have rem: "int64_rem a b = Some (word_of_int r)" if "b \<noteq> 0"
    using that ra by (simp add: int64_rem_def r_def)
  have small: "sint (word_of_int r :: 64 word) = r \<and> kMinInt < r \<and> r \<le> kMaxInt" if "b \<noteq> 0"
  proof -
    from that have "sint b \<noteq> 0" by (simp add: signed_eq_0_iff)
    then have "\<bar>r\<bar> < \<bar>sint b\<bar>" unfolding r_def by (rule truncated_rem_bound)
    with rb have "- (2 ^ 47) < r \<and> r < 2 ^ 47" by arith
    then show ?thesis
      by (simp add: sint_word_of_int_64 kMinInt_def kMaxInt_def)
  qed
  have int_case: "charly_create_number_int64 (word_of_int r) = charly_create_integer (word_of_int r)"
    if "b \<noteq> 0" "r \<noteq> kMaxInt"
    using small [OF that(1)] that(2) by (simp add: charly_create_number_int64_def)
  have float_case: "\<exists>x y res. is_double_of left x \<and> is_double_of right y \<and>
      charly_mod_number fmod left right = Some res \<and> is_number_of (fmod x y) res"
    if "\<not> (charly_is_int left \<and> charly_is_int right)"
  proof (intro exI conjI)
    show "is_double_of left (charly_number_to_double left)"
      and "is_double_of right (charly_number_to_double right)"
      by (rule number_to_double_is_double_of)+
    show "charly_mod_number fmod left right =
        Some (charly_create_number_double
                (fmod (charly_number_to_double left) (charly_number_to_double right)))"
      using that by (auto simp add: charly_mod_number_def)
    show "is_number_of (fmod (charly_number_to_double left) (charly_number_to_double right))
        (charly_create_number_double
           (fmod (charly_number_to_double left) (charly_number_to_double right)))"
      by (rule create_number_double_is_number_of)
  qed
  have ints: "(charly_is_int left \<and> charly_is_int right \<longrightarrow>
      charly_mod_number fmod left right =
        Some (if charly_int_to_int64 right = 0 then kNaN
              else charly_create_number_int64
                     (word_of_int (truncated_rem (sint (charly_int_to_int64 left))
                                                 (sint (charly_int_to_int64 right)))))) \<and>
   (charly_is_int left \<and> charly_is_int right \<and> charly_int_to_int64 right \<noteq> 0 \<and>
    truncated_rem (sint (charly_int_to_int64 left)) (sint (charly_int_to_int64 right)) \<noteq> kMaxInt \<longrightarrow>
      charly_mod_number fmod left right =
        Some (charly_create_integer
                (word_of_int (truncated_rem (sint (charly_int_to_int64 left))
                                            (sint (charly_int_to_int64 right)))))) \<and>
   (\<not> (charly_is_int left \<and> charly_is_int right) \<longrightarrow>
      charly_mod_number fmod left right =
        Some (charly_create_number_double
                (fmod (charly_number_to_double left) (charly_number_to_double right)))) \<and>
   charly_mod_number fmod left right \<noteq> None"
    using rem int_case
    by (auto simp add: charly_mod_number_def a_def [symmetric] b_def [symmetric] r_def [symmetric])
  from ints float_case show ?thesis
    by blast
qed

lemma small_integer_values:
  "charly_int_to_int64 (charly_create_integer (- 7)) = - 7"
  "charly_int_to_int64 (charly_create_integer 2) = 2"
  "charly_int_to_int64 (charly_create_integer 0) = 0"
  "charly_int_to_int64 (charly_create_integer 5) = 5"
  by (rule int_to_int64_create_integer_id; simp add: kMinInt_def kMaxInt_def)+

text \<open>
  The values of \<open>std::fmod\<close> at the inputs of the example: \<open>fmod(7.5, 2.0) = 1.5\<close>,
  \<open>fmod(7.0, 2.0) = 1.0\<close> and \<open>fmod(7.5, 0.0)\<close>, which is a NaN. In the example
  \<open>7.5 % 2\<close> is the float \<open>1.5\<close>, \<open>7 % 2.0\<close> is the integer \<open>1\<close> and \<open>7.5 % 0.0\<close> is the
  canonical NaN.
\<close>

definition example_fmod :: "double \<Rightarrow> double \<Rightarrow> double" where
  "example_fmod x y =
     (if x = 0x401E000000000000 \<and> y = 0x4000000000000000 then 0x3FF8000000000000
      else if x = 0x401C000000000000 \<and> y = 0x4000000000000000 then 0x3FF0000000000000
      else kBitsNaN)"

lemma example_doubles:
  "charly_number_to_double (charly_create_integer 2) = 0x4000000000000000"
  "charly_number_to_double (charly_create_integer 7) = 0x401C000000000000"
  "charly_number_to_double 0x401E000000000000 = 0x401E000000000000"
  "charly_number_to_double 0x4000000000000000 = 0x4000000000000000"
  "charly_number_to_double 0 = 0"
proof -
  have i: "charly_int_to_int64 (charly_create_integer 7) = 7"
    "charly_int_to_int64 (charly_create_integer 2) = 2"
    by (rule int_to_int64_create_integer_id; simp add: kMinInt_def kMaxInt_def)+
  have f: "\<not> charly_is_float (charly_create_integer 7)" "\<not> charly_is_float (charly_create_integer 2)"
    by (simp_all add: charly_is_float_def charly_is_nan_def charly_create_integer_def value_consts)
  have l: "bit_length 7 = 3" "bit_length 2 = 2"
    by (simp_all add: bit_length.simps)
  from i f l show "charly_number_to_double (charly_create_integer 2) = 0x4000000000000000"
    "charly_number_to_double (charly_create_integer 7) = 0x401C000000000000"
    by (simp_all add: charly_number_to_double_def charly_int_to_double_def int64_to_double_def
        Let_def)
  show "charly_number_to_double 0x401E000000000000 = 0x401E000000000000"
    "charly_number_to_double 0x4000000000000000 = 0x4000000000000000"
    "charly_number_to_double 0 = 0"
    by (simp_all add: charly_number_to_double_def charly_is_float_def charly_double_to_double_def
        BITCAST_DOUBLE_def value_consts)
qed

lemma example_numbers:
  "charly_create_number_double 0x3FF8000000000000 = 0x3FF8000000000000"
  "charly_create_number_double 0x3FF0000000000000 = charly_create_integer 1"
  "charly_create_number_double kBitsNaN = kNaN"
  by (simp_all add: charly_create_number_double_def double_integral_value_def
      double_exponent_unat double_mantissa_unat kMaxInt_def kMinInt_def Let_def
      charly_create_double_def value_consts)

theorem mod_number_remainder_witness:
  "charly_is_int (charly_create_integer (- 7)) \<and> charly_is_int (charly_create_integer 2) \<and>
   charly_int_to_int64 (charly_create_integer 2) \<noteq> 0 \<and>
   truncated_rem (sint (charly_int_to_int64 (charly_create_integer (- 7))))
     (sint (charly_int_to_int64 (charly_create_integer 2))) \<noteq> kMaxInt \<and>
   charly_mod_number example_fmod (charly_create_integer (- 7)) (charly_create_integer 2)
     = Some (charly_create_integer (- 1)) \<and>
   charly_mod_number example_fmod (charly_create_integer 5) (charly_create_integer 0) = Some kNaN \<and>
   charly_is_float 0x401E000000000000 \<and> \<not> charly_is_int 0x401E000000000000 \<and>
   is_double_of 0x401E000000000000 0x401E000000000000 \<and>
   is_double_of (charly_create_integer 2) 0x4000000000000000 \<and>
   is_number_of 0x3FF8000000000000 0x3FF8000000000000 \<and>
   charly_mod_number example_fmod 0x401E000000000000 (charly_create_integer 2)
     = Some 0x3FF8000000000000 \<and>
   charly_is_float 0x4000000000000000 \<and> \<not> charly_is_int 0x4000000000000000 \<and>
   is_double_of (charly_create_integer 7) 0x401C000000000000 \<and>
   is_number_of 0x3FF0000000000000 (charly_create_integer 1) \<and>
   charly_mod_number example_fmod (charly_create_integer 7) 0x4000000000000000
     = Some (charly_create_integer 1) \<and>
   charly_mod_number example_fmod 0x401E000000000000 0 = Some kNaN"
proof -
  have f: "charly_is_float 0x401E000000000000" "\<not> charly_is_int 0x401E000000000000"
    "charly_is_float 0x4000000000000000" "\<not> charly_is_int 0x4000000000000000"
    "charly_is_float 0" "\<not> charly_is_int 0"
    by (simp_all add: charly_is_int_def charly_is_float_def value_consts)
  have t: "truncated_rem (- 7) 2 = - 1"
    by (simp add: truncated_rem_def)
  have d: "is_double_of 0x401E000000000000 0x401E000000000000"
    "is_double_of (charly_create_integer 2) 0x4000000000000000"
    "is_double_of (charly_create_integer 7) 0x401C000000000000"
    using number_to_double_is_double_of [of "0x401E000000000000"]
      number_to_double_is_double_of [of "charly_create_integer 2"]
      number_to_double_is_double_of [of "charly_create_integer 7"]
    by (simp_all add: example_doubles)
  have n: "is_number_of 0x3FF8000000000000 0x3FF8000000000000"
    "is_number_of 0x3FF0000000000000 (charly_create_integer 1)"
    using create_number_double_is_number_of [of "0x3FF8000000000000"]
      create_number_double_is_number_of [of "0x3FF0000000000000"]
    by (simp_all add: example_numbers)
  have e: "example_fmod 0x401E000000000000 0x4000000000000000 = 0x3FF8000000000000"
    "example_fmod 0x401C000000000000 0x4000000000000000 = 0x3FF0000000000000"
    "example_fmod 0x401E000000000000 0 = kBitsNaN"
    by (simp_all add: example_fmod_def)
  from f t d n
    mod_number_remainder [of "charly_create_integer (- 7)" "charly_create_integer 2" example_fmod]
    mod_number_remainder [of "charly_create_integer 5" "charly_create_integer 0" example_fmod]
    mod_number_remainder [of "0x401E000000000000" "charly_create_integer 2" example_fmod]
    mod_number_remainder [of "charly_create_integer 7" "0x4000000000000000" example_fmod]
    mod_number_remainder [of "0x401E000000000000" 0 example_fmod]
  show ?thesis
    by (simp add: create_integer_is_int small_integer_values charly_create_number_int64_def
        kMaxInt_def kMinInt_def example_doubles example_numbers e)
qed

subsection \<open>Integer addition, subtraction and multiplication\<close>

lemma add_int64_exact:
  "sint (charly_int_to_int64 l + charly_int_to_int64 r)
     = sint (charly_int_to_int64 l) + sint (charly_int_to_int64 r)"
  using int_to_int64_range [of l] int_to_int64_range [of r]
  by (simp add: sint_word_ariths sint_sbintrunc' signed_take_bit_int_eq_self del: of_int_add)

lemma sub_int64_exact:
  "sint (charly_int_to_int64 l - charly_int_to_int64 r)
     = sint (charly_int_to_int64 l) - sint (charly_int_to_int64 r)"
  using int_to_int64_range [of l] int_to_int64_range [of r]
  by (simp add: sint_word_ariths sint_sbintrunc' signed_take_bit_int_eq_self del: of_int_diff)

text \<open>
  Sums and differences of two encoded integers never overflow 64 bits, so addition and
  subtraction are exact: the result is integer-tagged when it lies strictly between
  \<open>kMinInt\<close> and \<open>kMaxInt\<close> and the double of the exact result otherwise.
\<close>

lemma add_number_int:
  assumes "charly_is_int left" "charly_is_int right"
  shows "charly_add_number fp_add left right =
     (if kMinInt < sint (charly_int_to_int64 left) + sint (charly_int_to_int64 right) \<and>
         sint (charly_int_to_int64 left) + sint (charly_int_to_int64 right) < kMaxInt
      then charly_create_integer (charly_int_to_int64 left + charly_int_to_int64 right)
      else charly_create_double (int64_to_double (charly_int_to_int64 left + charly_int_to_int64 right)))"
  using assms by (auto simp add: charly_add_number_def charly_create_number_int64_def add_int64_exact)

lemma sub_number_int:
  assumes "charly_is_int left" "charly_is_int right"
  shows "charly_sub_number fp_sub left right =
     (if kMinInt < sint (charly_int_to_int64 left) - sint (charly_int_to_int64 right) \<and>
         sint (charly_int_to_int64 left) - sint (charly_int_to_int64 right) < kMaxInt
      then charly_create_integer (charly_int_to_int64 left - charly_int_to_int64 right)
      else charly_create_double (int64_to_double (charly_int_to_int64 left - charly_int_to_int64 right)))"
  using assms by (auto simp add: charly_sub_number_def charly_create_number_int64_def sub_int64_exact)

lemma mul_int64_exact:
  fixes a b :: "64 word"
  assumes "kMinInt < sint a * sint b" "sint a * sint b < kMaxInt"
  shows "sint (a * b) = sint a * sint b"
proof -
  from assms have "- (2 ^ 63) \<le> sint a * sint b" "sint a * sint b < 2 ^ 63"
    by (simp_all add: kMinInt_def kMaxInt_def)
  then show ?thesis
    by (simp add: sint_word_ariths sint_sbintrunc' signed_take_bit_int_eq_self del: of_int_mult)
qed

text \<open>A product that lies strictly between \<open>kMinInt\<close> and \<open>kMaxInt\<close> is integer-tagged.\<close>

lemma mul_number_int:
  assumes "charly_is_int left" "charly_is_int right"
    and "kMinInt < sint (charly_int_to_int64 left) * sint (charly_int_to_int64 right)"
    and "sint (charly_int_to_int64 left) * sint (charly_int_to_int64 right) < kMaxInt"
  shows "charly_mul_number fp_mul left right =
     charly_create_integer (charly_int_to_int64 left * charly_int_to_int64 right)"
  using assms mul_int64_exact [OF assms(3,4)]
  by (simp add: charly_mul_number_def charly_create_number_int64_def)

text \<open>Subtraction undoes addition when neither of the two promotes its result.\<close>

lemma sub_add_number_int:
  assumes "charly_is_int a" "charly_is_int b"
    and "kMinInt < sint (charly_int_to_int64 a) + sint (charly_int_to_int64 b)"
    and "sint (charly_int_to_int64 a) + sint (charly_int_to_int64 b) < kMaxInt"
    and "kMinInt < sint (charly_int_to_int64 a)" and "sint (charly_int_to_int64 a) < kMaxInt"
  shows "charly_sub_number fp_sub (charly_add_number fp_add a b) b = a"
proof -
  define s where "s = charly_int_to_int64 a + charly_int_to_int64 b"
  have add: "charly_add_number fp_add a b = charly_create_integer s"
    using assms by (simp add: add_number_int s_def)
  have ss: "sint s = sint (charly_int_to_int64 a) + sint (charly_int_to_int64 b)"
    by (simp add: s_def add_int64_exact)
  have rt: "charly_int_to_int64 (charly_create_integer s) = s"
    using assms ss by (intro int_to_int64_create_integer_id) simp_all
  have d: "s - charly_int_to_int64 b = charly_int_to_int64 a"
    by (simp add: s_def)
  have "charly_sub_number fp_sub (charly_create_integer s) b
      = charly_create_integer (s - charly_int_to_int64 b)"
    using assms ss by (simp add: sub_number_int create_integer_is_int rt d)
  then show ?thesis
    using assms(1) by (simp add: add d create_integer_of_int64)
qed

text \<open>
  Claim C6 at the integers \<open>2\<^sup>3\<^sup>2\<close> and \<open>2\<^sup>3\<^sup>2\<close>. Both are integer-tagged and their
  exact product \<open>2\<^sup>6\<^sup>4\<close> does not fit the integer range, so the claim asks for a
  double. The multiplication of \<open>charly_mul_number\<close> is done in \<open>int64_t\<close> before the
  range test of \<open>charly_create_number\<close>: the product wraps around to 0, which passes
  the test, and the result is the integer-tagged 0.
\<close>

theorem mul_number_overflow_wraps:
  "charly_is_int (charly_create_integer 0x100000000) \<and>
   sint (charly_int_to_int64 (charly_create_integer 0x100000000)) = 2 ^ 32 \<and>
   charly_mul_number fp_mul (charly_create_integer 0x100000000) (charly_create_integer 0x100000000)
     = charly_create_integer 0 \<and>
   charly_is_int (charly_create_integer 0)"
proof -
  have v: "charly_int_to_int64 (charly_create_integer 0x100000000) = 0x100000000"
    by (simp add: charly_int_to_int64_def charly_create_integer_def value_consts)
  have "(0x100000000 :: 64 word) = 2 ^ 32"
    by simp
  then have p: "(0x100000000 :: 64 word) * 0x100000000 = 2 ^ 64"
    by (simp only: flip: power_add) simp
  have z: "(2 :: 64 word) ^ 64 = 0"
    using word_pow_0 [where 'a = 64] by simp
  have w: "(0x100000000 :: 64 word) * 0x100000000 = 0"
    by (simp only: p z)
  show ?thesis
    unfolding charly_mul_number_def v w
    by (simp add: create_integer_is_int charly_create_number_int64_def kMaxInt_def kMinInt_def)
qed

section \<open>Garbage collector (gc.cpp)\<close>

subsection \<open>The heap\<close>

text \<open>
  The collector owns a list of arenas (\<open>heaps\<close>), each the array of cells obtained by one
  call of \<open>add_heap\<close>. An arena is kept as the list of its cells, each with its address, in
  the order of the array; the memory the pointers of values refer to is the map from these
  addresses to the cells.
\<close>

definition kMaxPointer :: addr where "kMaxPointer = 0x0000FFFFFFFFFFFF"

definition charly_create_pointer :: "addr \<Rightarrow> VALUE" where
  "charly_create_pointer ptr =
     (if ptr = 0 then kNull
      else if kMaxPointer < ptr then kSignaturePointer
      else kSignaturePointer OR (kMaskPointer AND ptr))"

type_synonym arena = "(addr \<times> MemoryCell) list"

definition heap_memory :: "arena list \<Rightarrow> memory" where
  "heap_memory hs = map_of (concat hs)"

subsection \<open>Marking\<close>

text \<open>
  \<open>mark\<close> returns at once on a value that is not a pointer, on the null pointer and on a
  cell that is marked already. Otherwise it sets the mark bit of the cell and marks the
  values the cell holds, which \<open>mark_children\<close> lists by cell type in the order of the
  source. A pointer to an address that holds no cell of the heap is left alone: the source
  would read memory that does not belong to the collector there.
\<close>

definition set_mark :: "addr \<Rightarrow> arena list \<Rightarrow> arena list" where
  "set_mark a hs =
     map (map (\<lambda>(b, c). if b = a then (b, c\<lparr>basic_mark := True\<rparr>) else (b, c))) hs"

definition Frame_locals :: "MemoryCell \<Rightarrow> Frame \<Rightarrow> VALUE list" where
  "Frame_locals c frame =
     (if basic_f1 c then frm_senv frame
      else (case frm_lenv frame of None \<Rightarrow> [] | Some lenv \<Rightarrow> lenv))"

definition mark_children :: "MemoryCell \<Rightarrow> VALUE list" where
  "mark_children c =
     (case cell_payload c of
        ObjectCell obj \<Rightarrow> obj_klass obj # map snd (obj_container obj)
      | ArrayCell arr \<Rightarrow> arr_data arr
      | FunctionCell func \<Rightarrow>
          [charly_create_pointer (fn_context func), fn_host_class func] @
          (if fn_bound_self_set func then [fn_bound_self func] else []) @
          map snd (fn_container func)
      | CFunctionCell cfunc \<Rightarrow> map snd (cfn_container cfunc)
      | GeneratorCell gen \<Rightarrow>
          (if \<not> generator_finished c then
             [charly_create_pointer (gen_context_frame gen),
              charly_create_pointer (gen_boot_function gen),
              charly_create_pointer (gen_context_catchtable gen)] @
             (if gen_bound_self_set gen then [gen_bound_self gen] else []) @
             gen_context_stack gen
           else []) @
          map snd (gen_container gen)
      | ClassCell klass \<Rightarrow>
          [cls_constructor klass, cls_prototype klass, cls_parent_class klass] @
          map snd (cls_container klass)
      | FrameCell frame \<Rightarrow>
          [charly_create_pointer (frm_parent frame),
           charly_create_pointer (frm_parent_environment_frame frame),
           charly_create_pointer (frm_last_active_catchtable frame),
           frm_caller_value frame, frm_self frame] @
          Frame_locals c frame
      | CatchTableCell table \<Rightarrow>
          [charly_create_pointer (ct_frame table), charly_create_pointer (ct_parent table)]
      | _ \<Rightarrow> [])"

definition unmarked_count :: "arena list \<Rightarrow> nat" where
  "unmarked_count hs = length (filter (\<lambda>(a, c). \<not> basic_mark c) (concat hs))"

function (domintros) mark :: "arena list \<Rightarrow> VALUE \<Rightarrow> arena list"
  and mark_each :: "arena list \<Rightarrow> VALUE list \<Rightarrow> arena list" where
  "mark hs v =
     (if \<not> charly_is_ptr v then hs
      else if charly_as_pointer v = 0 then hs
      else
        (case heap_memory hs (charly_as_pointer v) of
           None \<Rightarrow> hs
         | Some c \<Rightarrow>
             if basic_mark c then hs
             else mark_each (set_mark (charly_as_pointer v) hs) (mark_children c)))"
| "mark_each hs [] = hs"
| "mark_each hs (v # vs) = mark_each (mark hs v) vs"
  by pat_completeness auto

text \<open>
  Marking changes nothing but mark bits: its result is the heap with a set of cells marked.
  Every recursive call of \<open>mark\<close> is made after one more cell was marked, so the number of
  unmarked cells bounds the depth of the recursion and \<open>mark\<close> terminates on every heap,
  cyclic ones included.
\<close>

definition mark_set :: "addr set \<Rightarrow> arena list \<Rightarrow> arena list" where
  "mark_set S hs =
     map (map (\<lambda>(b, c). if b \<in> S then (b, c\<lparr>basic_mark := True\<rparr>) else (b, c))) hs"

lemma set_mark_mark_set: "set_mark a hs = mark_set {a} hs"
  by (simp add: set_mark_def mark_set_def)

lemma mark_set_empty: "mark_set {} hs = hs"
  by (simp add: mark_set_def map_idI)

lemma mark_set_mark_set: "mark_set T (mark_set S hs) = mark_set (S \<union> T) hs"
  by (auto simp add: mark_set_def intro!: map_cong)

lemma concat_mark_set:
  "concat (mark_set S hs) =
     map (\<lambda>(b, c). if b \<in> S then (b, c\<lparr>basic_mark := True\<rparr>) else (b, c)) (concat hs)"
  by (simp add: mark_set_def map_concat)

lemma unmarked_count_mark_set_le: "unmarked_count (mark_set S hs) \<le> unmarked_count hs"
proof -
  have "length (filter (\<lambda>(a, c). \<not> basic_mark c)
          (map (\<lambda>(b, c). if b \<in> S then (b, c\<lparr>basic_mark := True\<rparr>) else (b, c)) xs))
        \<le> length (filter (\<lambda>(a, c). \<not> basic_mark c) xs)" for xs :: arena
    by (induction xs) (auto split: if_splits)
  then show ?thesis
    by (simp add: unmarked_count_def concat_mark_set)
qed

lemma map_of_mark_cells:
  "map_of (map (\<lambda>(b, c). if b \<in> S then (b, c\<lparr>basic_mark := True\<rparr>) else (b, c)) xs) a =
     map_option (\<lambda>c. if a \<in> S then c\<lparr>basic_mark := True\<rparr> else c) (map_of xs a)"
  by (induction xs) auto

lemma heap_memory_mark_set:
  "heap_memory (mark_set S hs) a =
     map_option (\<lambda>c. if a \<in> S then c\<lparr>basic_mark := True\<rparr> else c) (heap_memory hs a)"
  by (simp add: heap_memory_def concat_mark_set map_of_mark_cells)

lemma unmarked_count_set_mark_less:
  assumes "heap_memory hs a = Some c" "\<not> basic_mark c"
  shows "unmarked_count (set_mark a hs) < unmarked_count hs"
proof -
  have "map_of xs a = Some c \<Longrightarrow>
        length (filter (\<lambda>(a, c). \<not> basic_mark c)
          (map (\<lambda>(b, c). if b \<in> {a} then (b, c\<lparr>basic_mark := True\<rparr>) else (b, c)) xs))
        < length (filter (\<lambda>(a, c). \<not> basic_mark c) xs)" for xs :: arena
  proof (induction xs)
    case Nil
    then show ?case by simp
  next
    case (Cons x xs)
    obtain b d where x: "x = (b, d)" by (cases x)
    show ?case
    proof (cases "b = a")
      case True
      have le: "length (filter (\<lambda>(a, c). \<not> basic_mark c)
          (map (\<lambda>(b, c). if b \<in> {a} then (b, c\<lparr>basic_mark := True\<rparr>) else (b, c)) xs))
        \<le> length (filter (\<lambda>(a, c). \<not> basic_mark c) xs)"
        by (induction xs) (auto split: if_splits)
      from True Cons.prems x have "d = c" by simp
      with True x assms(2) le show ?thesis by simp
    next
      case False
      with Cons x show ?thesis by simp
    qed
  qed
  with assms(1) show ?thesis
    by (simp add: unmarked_count_def set_mark_mark_set concat_mark_set heap_memory_def)
qed

lemma mark_dom_mark_set:
  "mark_mark_each_dom (Inl (hs, v)) \<Longrightarrow> \<exists>S. mark hs v = mark_set S hs"
  "mark_mark_each_dom (Inr (hs', vs)) \<Longrightarrow> \<exists>S. mark_each hs' vs = mark_set S hs'"
proof (induction rule: mark_mark_each.pinduct)
  case (1 hs v)
  show ?case
  proof (cases "charly_is_ptr v \<and> charly_as_pointer v \<noteq> 0")
    case False
    with 1(1) have "mark hs v = mark_set {} hs"
      by (auto simp add: mark.psimps mark_set_empty)
    then show ?thesis ..
  next
    case True
    show ?thesis
    proof (cases "heap_memory hs (charly_as_pointer v)")
      case None
      with 1(1) True have "mark hs v = mark_set {} hs"
        by (auto simp add: mark.psimps mark_set_empty)
      then show ?thesis ..
    next
      case (Some c)
      show ?thesis
      proof (cases "basic_mark c")
        case marked: True
        with 1(1) True Some have "mark hs v = mark_set {} hs"
          by (auto simp add: mark.psimps mark_set_empty)
        then show ?thesis ..
      next
        case unmarked: False
        from 1(2) True Some unmarked obtain S
          where "mark_each (set_mark (charly_as_pointer v) hs) (mark_children c)
                   = mark_set S (set_mark (charly_as_pointer v) hs)"
          by auto
        with 1(1) True Some unmarked
        have "mark hs v = mark_set ({charly_as_pointer v} \<union> S) hs"
          by (auto simp add: mark.psimps set_mark_mark_set mark_set_mark_set)
        then show ?thesis ..
      qed
    qed
  qed
next
  case (2 hs)
  then have "mark_each hs [] = mark_set {} hs"
    by (simp add: mark_each.psimps mark_set_empty)
  then show ?case ..
next
  case (3 hs v vs)
  from 3(2) obtain S where S: "mark hs v = mark_set S hs" by auto
  from 3(3) obtain T where "mark_each (mark hs v) vs = mark_set T (mark hs v)" by auto
  with S 3(1) have "mark_each hs (v # vs) = mark_set (S \<union> T) hs"
    by (simp add: mark_each.psimps mark_set_mark_set)
  then show ?case ..
qed

lemma mark_dom_unmarked_le:
  assumes "mark_mark_each_dom (Inl (hs, v))"
  shows "unmarked_count (mark hs v) \<le> unmarked_count hs"
  using mark_dom_mark_set(1) [OF assms] unmarked_count_mark_set_le by auto

termination mark
proof (relation "inv_image (less_than <*lex*> less_than)
    (\<lambda>x. case x of Inl (hs, v) \<Rightarrow> (unmarked_count hs, 0)
                  | Inr (hs, vs) \<Rightarrow> (unmarked_count hs, Suc (length vs)))", goal_cases)
  case 1
  show ?case
    by (intro wf_inv_image wf_lex_prod wf_less_than)
next
  case (2 hs v c)
  then show ?case
    by (simp add: unmarked_count_set_mark_less)
next
  case (3 hs v vs)
  show ?case by simp
next
  case (4 hs v vs)
  from mark_dom_unmarked_le [OF 4] show ?case
    by auto
qed

declare mark.simps [simp del]


subsection \<open>Reachability\<close>

text \<open>
  A cell is reachable when a root points to it, or a value held by a reachable cell does.
  On a heap without marked cells, marking the roots marks exactly the reachable cells.
\<close>

definition points_to :: "memory \<Rightarrow> VALUE \<Rightarrow> addr \<Rightarrow> bool" where
  "points_to mem v a \<longleftrightarrow>
     charly_is_ptr v \<and> charly_as_pointer v = a \<and> a \<noteq> 0 \<and> mem a \<noteq> None"

inductive_set reachable :: "memory \<Rightarrow> VALUE list \<Rightarrow> addr set" for mem roots where
  reachable_root:
    "v \<in> set roots \<Longrightarrow> points_to mem v a \<Longrightarrow> a \<in> reachable mem roots"
| reachable_step:
    "a \<in> reachable mem roots \<Longrightarrow> mem a = Some c \<Longrightarrow> v \<in> set (mark_children c) \<Longrightarrow>
     points_to mem v b \<Longrightarrow> b \<in> reachable mem roots"

definition marked :: "arena list \<Rightarrow> addr set" where
  "marked hs = {a. \<exists>c. heap_memory hs a = Some c \<and> basic_mark c}"

lemma mark_children_marked [simp]: "mark_children (c\<lparr>basic_mark := m\<rparr>) = mark_children c"
  by (cases "cell_payload c")
    (simp_all add: mark_children_def generator_finished_def Frame_locals_def)

lemma points_to_mark_set [simp]:
  "points_to (heap_memory (mark_set S hs)) v a = points_to (heap_memory hs) v a"
  by (simp add: points_to_def heap_memory_mark_set)

lemma reachable_mark_set [simp]:
  "reachable (heap_memory (mark_set S hs)) vs = reachable (heap_memory hs) vs"
proof (intro set_eqI iffI)
  fix a
  assume "a \<in> reachable (heap_memory (mark_set S hs)) vs"
  then show "a \<in> reachable (heap_memory hs) vs"
  proof induction
    case (reachable_root v a)
    then show ?case by (auto intro: reachable.reachable_root)
  next
    case (reachable_step a c v b)
    from reachable_step(2) obtain c' where "heap_memory hs a = Some c'"
      and "mark_children c' = mark_children c"
      by (auto simp add: heap_memory_mark_set split: if_splits)
    with reachable_step show ?case
      by (auto intro: reachable.reachable_step)
  qed
next
  fix a
  assume "a \<in> reachable (heap_memory hs) vs"
  then show "a \<in> reachable (heap_memory (mark_set S hs)) vs"
  proof induction
    case (reachable_root v a)
    then show ?case by (auto intro: reachable.reachable_root)
  next
    case (reachable_step a c v b)
    have "heap_memory (mark_set S hs) a
        = Some (if a \<in> S then c\<lparr>basic_mark := True\<rparr> else c)"
      using reachable_step(2) by (simp add: heap_memory_mark_set)
    moreover have "v \<in> set (mark_children (if a \<in> S then c\<lparr>basic_mark := True\<rparr> else c))"
      using reachable_step(3) by simp
    moreover have "points_to (heap_memory (mark_set S hs)) v b"
      using reachable_step(4) by simp
    ultimately show ?case
      using reachable_step(5) by (rule reachable.reachable_step [rotated])
  qed
qed

lemma marked_mark_set:
  "marked (mark_set S hs) = marked hs \<union> (S \<inter> dom (heap_memory hs))"
proof (intro set_eqI)
  fix a
  show "a \<in> marked (mark_set S hs) \<longleftrightarrow> a \<in> marked hs \<union> (S \<inter> dom (heap_memory hs))"
    by (cases "heap_memory hs a"; cases "a \<in> S")
      (auto simp add: marked_def heap_memory_mark_set)
qed

lemma reachable_mono:
  assumes "set vs \<subseteq> set ws"
  shows "reachable mem vs \<subseteq> reachable mem ws"
proof
  fix a
  assume "a \<in> reachable mem vs"
  then show "a \<in> reachable mem ws"
  proof induction
    case (reachable_root v a)
    with assms show ?case by (auto intro: reachable.reachable_root)
  next
    case (reachable_step a c v b)
    then show ?case by (auto intro: reachable.reachable_step)
  qed
qed

lemma reachable_children:
  assumes "points_to mem v a" "mem a = Some c"
  shows "reachable mem (mark_children c) \<subseteq> reachable mem [v]"
proof
  fix b
  assume "b \<in> reachable mem (mark_children c)"
  then show "b \<in> reachable mem [v]"
  proof induction
    case (reachable_root w b)
    have "a \<in> reachable mem [v]"
      using assms(1) by (auto intro: reachable.reachable_root)
    then show ?case
      using assms(2) reachable_root by (rule reachable.reachable_step)
  next
    case (reachable_step a c v b)
    then show ?case by (auto intro: reachable.reachable_step)
  qed
qed

lemma reachable_dom: "a \<in> reachable mem vs \<Longrightarrow> a \<in> dom mem"
  by (induction rule: reachable.induct) (auto simp add: points_to_def)

definition closed_new :: "arena list \<Rightarrow> addr set \<Rightarrow> bool" where
  "closed_new hs S \<longleftrightarrow>
     (\<forall>a \<in> S. a \<notin> marked hs \<longrightarrow>
        (\<forall>c w b. heap_memory hs a = Some c \<longrightarrow> w \<in> set (mark_children c) \<longrightarrow>
           points_to (heap_memory hs) w b \<longrightarrow> b \<in> S \<union> marked hs))"

definition mark_result :: "arena list \<Rightarrow> VALUE list \<Rightarrow> arena list \<Rightarrow> bool" where
  "mark_result hs vs hs' \<longleftrightarrow>
     (\<exists>S. hs' = mark_set S hs \<and> S \<subseteq> reachable (heap_memory hs) vs \<and>
        (\<forall>v \<in> set vs. \<forall>a. points_to (heap_memory hs) v a \<longrightarrow> a \<in> S \<union> marked hs) \<and>
        closed_new hs S)"

lemma mark_result_empty:
  assumes "\<forall>v \<in> set vs. \<forall>a. points_to (heap_memory hs) v a \<longrightarrow> a \<in> marked hs"
  shows "mark_result hs vs hs"
  unfolding mark_result_def
  using assms by (intro exI [of _ "{}"]) (simp add: mark_set_empty closed_new_def)

lemma mark_mark_result:
  "mark_result hs [v] (mark hs v)"
  "mark_result hs' vs (mark_each hs' vs)"
proof (induction hs v and hs' vs rule: mark_mark_each.induct)
  case (1 hs v)
  let ?a = "charly_as_pointer v"
  let ?mem = "heap_memory hs"
  show ?case
  proof (cases "charly_is_ptr v \<and> ?a \<noteq> 0 \<and> (\<exists>c. ?mem ?a = Some c \<and> \<not> basic_mark c)")
    case False
    then have "mark hs v = hs"
      by (auto simp add: mark.simps split: option.splits)
    moreover from False have "\<forall>w \<in> set [v]. \<forall>a. points_to ?mem w a \<longrightarrow> a \<in> marked hs"
      by (auto simp add: points_to_def marked_def)
    ultimately show ?thesis
      using mark_result_empty [of "[v]" hs] by simp
  next
    case True
    then obtain c where c: "?mem ?a = Some c" "\<not> basic_mark c" and p: "charly_is_ptr v" "?a \<noteq> 0"
      by auto
    let ?hs1 = "set_mark ?a hs"
    have m: "mark hs v = mark_each ?hs1 (mark_children c)"
      using c p by (simp add: mark.simps)
    have pt: "points_to ?mem v ?a"
      using c p by (simp add: points_to_def)
    from 1 [OF _ _ c(1) c(2)] p
    have "mark_result ?hs1 (mark_children c) (mark_each ?hs1 (mark_children c))"
      by simp
    then obtain S where S: "mark_each ?hs1 (mark_children c) = mark_set S ?hs1"
      and Sr: "S \<subseteq> reachable (heap_memory ?hs1) (mark_children c)"
      and Sv: "\<forall>w \<in> set (mark_children c). \<forall>b. points_to (heap_memory ?hs1) w b \<longrightarrow> b \<in> S \<union> marked ?hs1"
      and Sc: "closed_new ?hs1 S"
      unfolding mark_result_def by blast
    have m1: "marked ?hs1 = marked hs \<union> {?a}"
      using c by (auto simp add: set_mark_mark_set marked_mark_set)
    have mem1: "heap_memory ?hs1 x = Some d \<Longrightarrow> \<exists>d'. ?mem x = Some d' \<and> mark_children d' = mark_children d" for x d
      by (auto simp add: set_mark_mark_set heap_memory_mark_set)
    have r1: "S \<subseteq> reachable ?mem [v]"
      using Sr reachable_children [OF pt c(1)] by (simp add: set_mark_mark_set)
    have "mark hs v = mark_set ({?a} \<union> S) hs"
      using m S by (simp add: set_mark_mark_set mark_set_mark_set)
    moreover have "{?a} \<union> S \<subseteq> reachable ?mem [v]"
      using r1 pt by (auto intro: reachable.reachable_root)
    moreover have "\<forall>w \<in> set [v]. \<forall>b. points_to ?mem w b \<longrightarrow> b \<in> ({?a} \<union> S) \<union> marked hs"
      by (auto simp add: points_to_def)
    moreover have "closed_new hs ({?a} \<union> S)"
      unfolding closed_new_def
    proof (intro ballI impI allI)
      fix x d w b
      assume x: "x \<in> {?a} \<union> S" "x \<notin> marked hs" "?mem x = Some d" "w \<in> set (mark_children d)"
        "points_to ?mem w b"
      show "b \<in> ({?a} \<union> S) \<union> marked hs"
      proof (cases "x = ?a")
        case True
        with x c have "w \<in> set (mark_children c)" by simp
        with Sv x(5) m1 show ?thesis
          by (auto simp add: set_mark_mark_set)
      next
        case False
        with x have xs: "x \<in> S" "x \<notin> marked ?hs1"
          by (auto simp add: m1)
        have "heap_memory ?hs1 x = Some d"
          using x(3) False by (simp add: set_mark_mark_set heap_memory_mark_set)
        with Sc xs x(4,5) have "b \<in> S \<union> marked ?hs1"
          unfolding closed_new_def by (auto simp add: set_mark_mark_set)
        then show ?thesis by (auto simp add: m1)
      qed
    qed
    ultimately show ?thesis
      unfolding mark_result_def by blast
  qed
next
  case (2 hs)
  show ?case
    using mark_result_empty [of "[]" hs] by simp
next
  case (3 hs v vs)
  let ?mem = "heap_memory hs"
  from 3(1) obtain S where S: "mark hs v = mark_set S hs"
    and Sr: "S \<subseteq> reachable ?mem [v]"
    and Sv: "\<forall>a. points_to ?mem v a \<longrightarrow> a \<in> S \<union> marked hs"
    and Sc: "closed_new hs S"
    unfolding mark_result_def by auto
  from 3(2) obtain T where T: "mark_each (mark hs v) vs = mark_set T (mark hs v)"
    and Tr: "T \<subseteq> reachable (heap_memory (mark hs v)) vs"
    and Tv: "\<forall>w \<in> set vs. \<forall>a. points_to (heap_memory (mark hs v)) w a \<longrightarrow> a \<in> T \<union> marked (mark hs v)"
    and Tc: "closed_new (mark hs v) T"
    unfolding mark_result_def by blast
  have m1: "marked (mark hs v) = marked hs \<union> S"
    using Sr reachable_dom [of _ ?mem "[v]"] by (auto simp add: S marked_mark_set)
  have "mark_each hs (v # vs) = mark_set (S \<union> T) hs"
    using S T by (simp add: mark_set_mark_set)
  moreover have "S \<union> T \<subseteq> reachable ?mem (v # vs)"
    using Sr Tr reachable_mono [of "[v]" "v # vs" ?mem] reachable_mono [of vs "v # vs" ?mem]
    by (auto simp add: S)
  moreover have "\<forall>w \<in> set (v # vs). \<forall>a. points_to ?mem w a \<longrightarrow> a \<in> (S \<union> T) \<union> marked hs"
    using Sv Tv by (auto simp add: S m1 [unfolded S])
  moreover have "closed_new hs (S \<union> T)"
    unfolding closed_new_def
  proof (intro ballI impI allI)
    fix x d w b
    assume x: "x \<in> S \<union> T" "x \<notin> marked hs" "?mem x = Some d" "w \<in> set (mark_children d)"
      "points_to ?mem w b"
    show "b \<in> (S \<union> T) \<union> marked hs"
    proof (cases "x \<in> S")
      case True
      with Sc x show ?thesis
        unfolding closed_new_def by blast
    next
      case False
      with x have xt: "x \<in> T" "x \<notin> marked (mark hs v)"
        by (auto simp add: m1)
      have "heap_memory (mark hs v) x = Some d"
        using x(3) False by (simp add: S heap_memory_mark_set)
      moreover have "points_to (heap_memory (mark hs v)) w b"
        using x(5) by (simp add: S)
      ultimately have "b \<in> T \<union> marked (mark hs v)"
        using Tc xt x(4) unfolding closed_new_def by blast
      then show ?thesis by (auto simp add: m1)
    qed
  qed
  ultimately show ?case
    unfolding mark_result_def by blast
qed


lemma mark_each_reachable:
  assumes "marked hs = {}"
  shows "mark_each hs roots = mark_set (reachable (heap_memory hs) roots) hs"
proof -
  from mark_mark_result(2) [of hs roots] obtain S
    where S: "mark_each hs roots = mark_set S hs"
      and Sr: "S \<subseteq> reachable (heap_memory hs) roots"
      and Sv: "\<forall>v \<in> set roots. \<forall>a. points_to (heap_memory hs) v a \<longrightarrow> a \<in> S \<union> marked hs"
      and Sc: "closed_new hs S"
    unfolding mark_result_def by blast
  have "a \<in> S" if "a \<in> reachable (heap_memory hs) roots" for a
    using that
  proof induction
    case (reachable_root v a)
    with Sv assms show ?case by auto
  next
    case (reachable_step a c v b)
    with Sc assms show ?case
      unfolding closed_new_def by auto
  qed
  with Sr have "S = reachable (heap_memory hs) roots" by auto
  with S show ?thesis by simp
qed

subsection \<open>Roots (vm.h)\<close>

text \<open>
  The fields of the machine that \<open>collect\<close> reads. A task is a tagged union of a thread
  (id and argument) and a callback (function and four arguments), kept as the words the
  union overlays. The maps of timers, tickers, paused threads and worker threads are kept
  as the lists of their entries in iteration order. \<open>vm_roots\<close> lists the values that
  \<open>collect\<close> marks for a running machine, in the order of the source.
\<close>

record VMTask =
  task_is_thread :: bool
  task_uid :: "64 word"
  task_word0 :: "64 word"
  task_word1 :: "64 word"
  task_word2 :: "64 word"
  task_word3 :: "64 word"
  task_word4 :: "64 word"

definition thread_argument :: "VMTask \<Rightarrow> VALUE" where
  "thread_argument task = task_word1 task"

definition callback_func :: "VMTask \<Rightarrow> VALUE" where
  "callback_func task = task_word0 task"

definition callback_arguments :: "VMTask \<Rightarrow> VALUE list" where
  "callback_arguments task = [task_word1 task, task_word2 task, task_word3 task, task_word4 task]"

record VMThread =
  thr_uid :: "64 word"
  thr_stack :: "VALUE list"
  thr_frame :: addr
  thr_catchstack :: addr
  thr_resume_address :: addr

record WorkerThread =
  wt_cfunc :: addr
  wt_arguments :: "VALUE list"
  wt_callback :: addr
  wt_error_value :: VALUE

record VM =
  vm_running :: bool
  vm_frames :: addr
  vm_catchstack :: addr
  vm_uncaught_exception_handler :: VALUE
  vm_internal_error_class :: VALUE
  vm_globals :: VALUE
  vm_primitive_array :: VALUE
  vm_primitive_boolean :: VALUE
  vm_primitive_class :: VALUE
  vm_primitive_function :: VALUE
  vm_primitive_generator :: VALUE
  vm_primitive_null :: VALUE
  vm_primitive_number :: VALUE
  vm_primitive_object :: VALUE
  vm_primitive_string :: VALUE
  vm_primitive_value :: VALUE
  vm_stack :: "VALUE list"
  vm_pop_queue :: "VALUE list"
  vm_task_queue :: "VMTask list"
  vm_timers :: "VMTask list"
  vm_tickers :: "VMTask list"
  vm_paused_threads :: "VMThread list"
  vm_worker_threads :: "WorkerThread list"

definition task_roots :: "VMTask \<Rightarrow> VALUE list" where
  "task_roots task =
     (if task_is_thread task then [thread_argument task]
      else callback_func task # callback_arguments task)"

definition timer_roots :: "VMTask \<Rightarrow> VALUE list" where
  "timer_roots task = callback_func task # callback_arguments task"

definition paused_thread_roots :: "VMThread \<Rightarrow> VALUE list" where
  "paused_thread_roots thread =
     thr_stack thread @
     [charly_create_pointer (thr_frame thread), charly_create_pointer (thr_catchstack thread)]"

definition worker_thread_roots :: "WorkerThread \<Rightarrow> VALUE list" where
  "worker_thread_roots entry =
     (if wt_cfunc entry \<noteq> 0 then [charly_create_pointer (wt_cfunc entry)] else []) @
     (if wt_callback entry \<noteq> 0 then [charly_create_pointer (wt_callback entry)] else []) @
     [wt_error_value entry] @ wt_arguments entry"

definition vm_roots :: "VM \<Rightarrow> VALUE list" where
  "vm_roots vm =
     [charly_create_pointer (vm_frames vm), charly_create_pointer (vm_catchstack vm),
      vm_uncaught_exception_handler vm, vm_internal_error_class vm, vm_globals vm,
      vm_primitive_array vm, vm_primitive_boolean vm, vm_primitive_class vm,
      vm_primitive_function vm, vm_primitive_generator vm, vm_primitive_null vm,
      vm_primitive_number vm, vm_primitive_object vm, vm_primitive_string vm,
      vm_primitive_value vm] @
     vm_stack vm @
     vm_pop_queue vm @
     concat (map task_roots (vm_task_queue vm)) @
     concat (map timer_roots (vm_timers vm)) @
     concat (map timer_roots (vm_tickers vm)) @
     concat (map paused_thread_roots (vm_paused_threads vm)) @
     concat (map worker_thread_roots (vm_worker_threads vm))"

subsection \<open>Collector state\<close>

text \<open>
  Modelled from the spec: the declarations of \<open>GarbageCollectorConfig\<close> and
  \<open>GarbageCollector\<close> are in \<open>gc.h\<close>, which is not among the sources. The fields are those
  that \<open>gc.cpp\<close> uses; the cell count of an arena, the growth factor and the threshold of
  free cells are taken as \<open>size_t\<close>, as is the counter of free cells. The error stream of
  the configuration is kept as the list of lines written to it (\<open>err_stream\<close>). The trace
  output is not modelled. \<open>clean_log\<close> records the calls of the type-specific \<open>clean\<close>
  functions, with the address and the contents of the cell at the time of the call.
\<close>

record GarbageCollectorConfig =
  heap_cell_count :: "64 word"
  heap_growth_factor :: "64 word"
  min_free_cells :: "64 word"

record GarbageCollector =
  config :: GarbageCollectorConfig
  heaps :: "arena list"
  free_cell :: addr
  remaining_free_cells :: "64 word"
  temporaries :: "VALUE list"
  clean_log :: "(addr \<times> MemoryCell) list"
  err_stream :: "string list"

subsection \<open>Deallocation and sweep\<close>

text \<open>
  \<open>deallocate\<close> runs the \<open>clean\<close> function of the cell's type (\<open>has_clean\<close> tells which types
  have one), zeroes the cell, tags it dead, links it in front of the freelist and counts it
  as free. The sweep visits every cell of every arena: a marked cell loses its mark, an
  unmarked cell that is not dead is deallocated and counted, a dead cell is left alone.
  The source reads the header of a cell through \<open>charly_create_pointer\<close>, which gives a
  pointer to the cell itself for every address that is not null and fits the pointer bits
  of a value; the cells of the heap are assumed to have such addresses.
\<close>

definition has_clean :: "ValueType \<Rightarrow> bool" where
  "has_clean t \<longleftrightarrow>
     t \<in> {kTypeObject, kTypeArray, kTypeString, kTypeFunction, kTypeCFunction, kTypeGenerator,
          kTypeClass, kTypeCPointer, kTypeFrame}"

definition dead_cell :: "addr \<Rightarrow> MemoryCell" where
  "dead_cell next =
     \<lparr>basic_f1 = False, basic_f2 = False, basic_mark = False, cell_payload = DeadCell next\<rparr>"

definition deallocate ::
  "addr \<Rightarrow> MemoryCell \<Rightarrow> GarbageCollector \<Rightarrow> MemoryCell \<times> GarbageCollector" where
  "deallocate a cell gc =
     (let gc = (if has_clean (basic_type cell)
                then gc\<lparr>clean_log := clean_log gc @ [(a, cell)]\<rparr> else gc);
          cell' = dead_cell (free_cell gc)
      in (cell', gc\<lparr>free_cell := a, remaining_free_cells := remaining_free_cells gc + 1\<rparr>))"

fun sweep_cells ::
  "arena \<Rightarrow> GarbageCollector \<Rightarrow> nat \<Rightarrow> arena \<times> GarbageCollector \<times> nat" where
  "sweep_cells [] gc freed_cells_count = ([], gc, freed_cells_count)"
| "sweep_cells ((a, cell) # rest) gc freed_cells_count =
     (if basic_mark cell then
        (case sweep_cells rest gc freed_cells_count of
           (rest', r) \<Rightarrow> ((a, cell\<lparr>basic_mark := False\<rparr>) # rest', r))
      else if basic_type cell \<noteq> kTypeDead then
        (case deallocate a cell gc of
           (cell', gc') \<Rightarrow>
             (case sweep_cells rest gc' (freed_cells_count + 1) of
                (rest', r) \<Rightarrow> ((a, cell') # rest', r)))
      else
        (case sweep_cells rest gc freed_cells_count of
           (rest', r) \<Rightarrow> ((a, cell) # rest', r)))"

fun sweep_heaps ::
  "arena list \<Rightarrow> GarbageCollector \<Rightarrow> nat \<Rightarrow> arena list \<times> GarbageCollector \<times> nat" where
  "sweep_heaps [] gc freed_cells_count = ([], gc, freed_cells_count)"
| "sweep_heaps (heap # rest) gc freed_cells_count =
     (case sweep_cells heap gc freed_cells_count of
        (heap', gc', freed') \<Rightarrow>
          (case sweep_heaps rest gc' freed' of
             (rest', r) \<Rightarrow> (heap' # rest', r)))"

subsection \<open>Collection\<close>

text \<open>
  \<open>collect\<close> marks the roots of the machine, when it is running, and the temporaries of
  the collector, then sweeps. The values of the pop queue are taken off the queue as they
  are marked, so the queue is empty afterwards. The result is the collector, the machine
  and the number of freed cells.
\<close>

definition collect_roots :: "GarbageCollector \<Rightarrow> VM \<Rightarrow> VALUE list" where
  "collect_roots gc vm = (if vm_running vm then vm_roots vm else []) @ temporaries gc"

definition collect :: "GarbageCollector \<Rightarrow> VM \<Rightarrow> GarbageCollector \<times> VM \<times> nat" where
  "collect gc vm =
     (let marked_heaps = mark_each (heaps gc) (collect_roots gc vm);
          vm' = (if vm_running vm then vm\<lparr>vm_pop_queue := []\<rparr> else vm)
      in case sweep_heaps marked_heaps gc 0 of
           (swept, gc', freed_cells_count) \<Rightarrow> (gc'\<lparr>heaps := swept\<rparr>, vm', freed_cells_count))"

subsection \<open>Growing the heap and allocating\<close>

text \<open>
  Modelled from the spec: the memory of a new arena comes from \<open>calloc\<close> of the C library.
  The parameter \<open>calloc k i\<close> is the address of cell \<open>i\<close> of the arena that is added when the
  collector has \<open>k\<close> arenas; the cells are zeroed, which tags them dead.

  \<open>allocate\<close> dereferences the head of the freelist without a test. The result is
  \<open>NullFreelist\<close> when the head is the null pointer and \<open>CorruptFreelist\<close> when it is not the
  address of a dead cell of the heap, the two cases in which the source has no defined
  behaviour.
\<close>

definition add_heap :: "(nat \<Rightarrow> nat \<Rightarrow> addr) \<Rightarrow> GarbageCollector \<Rightarrow> GarbageCollector" where
  "add_heap calloc gc =
     (let k = length (heaps gc);
          n = unat (heap_cell_count (config gc));
          heap = map (\<lambda>i. (calloc k i, dead_cell (if i = 0 then free_cell gc else calloc k (i - 1))))
                   [0..<n];
          last_cell = (if n = 0 then free_cell gc else calloc k (n - 1))
      in gc\<lparr>heaps := heaps gc @ [heap],
             remaining_free_cells := remaining_free_cells gc + heap_cell_count (config gc),
             free_cell := last_cell\<rparr>)"

definition grow_heap :: "(nat \<Rightarrow> nat \<Rightarrow> addr) \<Rightarrow> GarbageCollector \<Rightarrow> GarbageCollector" where
  "grow_heap calloc gc =
     (let heap_count = (of_nat (length (heaps gc)) :: 64 word);
          heaps_to_add = (heap_count * heap_growth_factor (config gc) + 1) - heap_count
      in (add_heap calloc ^^ unat heaps_to_add) gc)"

datatype allocate_failure = NullFreelist | CorruptFreelist

definition allocate ::
  "(nat \<Rightarrow> nat \<Rightarrow> addr) \<Rightarrow> GarbageCollector \<Rightarrow> VM \<Rightarrow>
     allocate_failure + (addr \<times> GarbageCollector \<times> VM)" where
  "allocate calloc gc vm =
     (if free_cell gc = 0 then Inl NullFreelist
      else
        (case heap_memory (heaps gc) (free_cell gc) of
           None \<Rightarrow> Inl CorruptFreelist
         | Some c \<Rightarrow>
             (case cell_payload c of
                DeadCell next \<Rightarrow>
                  (let cell = free_cell gc;
                       gc = gc\<lparr>free_cell := next\<rparr>;
                       (gc, vm) =
                         (if free_cell gc = 0 \<or>
                             remaining_free_cells gc \<le> min_free_cells (config gc) then
                            (case collect gc vm of
                               (gc, vm, freed) \<Rightarrow>
                                 (if free_cell gc = 0 then
                                    (let gc = grow_heap calloc gc
                                     in if free_cell gc = 0 then
                                          (gc\<lparr>err_stream := err_stream gc @
                                             [''Failed to expand heap, the next allocation will cause a segfault.'']\<rparr>, vm)
                                        else (gc, vm))
                                  else (gc, vm)))
                          else (gc, vm))
                   in Inr (cell, gc\<lparr>remaining_free_cells := remaining_free_cells gc - 1\<rparr>, vm))
              | _ \<Rightarrow> Inl CorruptFreelist)))"


subsection \<open>The sweep, cell by cell\<close>

text \<open>
  The cells that a sweep frees are the unmarked cells that are not dead (\<open>freed_cells\<close>).
  The swept arena and the new head of the freelist are functions of the cells and of the
  old head alone (\<open>swept_cells\<close>, \<open>swept_head\<close>); the sweep of the source computes them,
  logs the \<open>clean\<close> calls of the freed cells and counts them.
\<close>

definition freed_cells :: "arena \<Rightarrow> arena" where
  "freed_cells cs = filter (\<lambda>(a, c). \<not> basic_mark c \<and> basic_type c \<noteq> kTypeDead) cs"

fun swept_cells :: "addr \<Rightarrow> arena \<Rightarrow> arena" where
  "swept_cells h [] = []"
| "swept_cells h ((a, c) # rest) =
     (if basic_mark c then (a, c\<lparr>basic_mark := False\<rparr>) # swept_cells h rest
      else if basic_type c \<noteq> kTypeDead then (a, dead_cell h) # swept_cells a rest
      else (a, c) # swept_cells h rest)"

definition swept_head :: "addr \<Rightarrow> arena \<Rightarrow> addr" where
  "swept_head h cs = (if freed_cells cs = [] then h else fst (last (freed_cells cs)))"

lemma freed_cells_Cons:
  "freed_cells ((a, c) # rest) =
     (if \<not> basic_mark c \<and> basic_type c \<noteq> kTypeDead then (a, c) # freed_cells rest
      else freed_cells rest)"
  by (simp add: freed_cells_def)

lemma swept_head_Cons:
  "swept_head h ((a, c) # rest) =
     (if \<not> basic_mark c \<and> basic_type c \<noteq> kTypeDead then swept_head a rest
      else swept_head h rest)"
  by (simp add: swept_head_def freed_cells_Cons)

lemma sweep_cells_eq:
  "sweep_cells cs gc n =
     (swept_cells (free_cell gc) cs,
      gc\<lparr>clean_log := clean_log gc @ filter (\<lambda>(a, c). has_clean (basic_type c)) (freed_cells cs),
         free_cell := swept_head (free_cell gc) cs,
         remaining_free_cells := remaining_free_cells gc + of_nat (length (freed_cells cs))\<rparr>,
      n + length (freed_cells cs))"
proof (induction cs arbitrary: gc n)
  case Nil
  then show ?case by (simp add: freed_cells_def swept_head_def)
next
  case (Cons x cs)
  obtain a c where x: "x = (a, c)" by (cases x)
  show ?case
    unfolding x
    by (simp add: Cons.IH freed_cells_Cons swept_head_Cons deallocate_def Let_def add.assoc
        add.commute)
qed


fun swept_heaps :: "addr \<Rightarrow> arena list \<Rightarrow> arena list" where
  "swept_heaps h [] = []"
| "swept_heaps h (heap # rest) = swept_cells h heap # swept_heaps (swept_head h heap) rest"

lemma freed_cells_append: "freed_cells (xs @ ys) = freed_cells xs @ freed_cells ys"
  by (simp add: freed_cells_def)

lemma swept_head_append: "swept_head h (xs @ ys) = swept_head (swept_head h xs) ys"
  by (simp add: swept_head_def freed_cells_append)

lemma swept_cells_append:
  "swept_cells h (xs @ ys) = swept_cells h xs @ swept_cells (swept_head h xs) ys"
proof (induction xs arbitrary: h)
  case Nil
  then show ?case by (simp add: swept_head_def freed_cells_def)
next
  case (Cons x xs)
  obtain a c where x: "x = (a, c)" by (cases x)
  show ?case
    unfolding x by (simp add: Cons.IH swept_head_Cons)
qed

lemma concat_swept_heaps: "concat (swept_heaps h hs) = swept_cells h (concat hs)"
  by (induction hs arbitrary: h) (simp_all add: swept_cells_append)

lemma sweep_heaps_eq:
  "sweep_heaps hs gc n =
     (swept_heaps (free_cell gc) hs,
      gc\<lparr>clean_log := clean_log gc @
           filter (\<lambda>(a, c). has_clean (basic_type c)) (freed_cells (concat hs)),
         free_cell := swept_head (free_cell gc) (concat hs),
         remaining_free_cells :=
           remaining_free_cells gc + of_nat (length (freed_cells (concat hs)))\<rparr>,
      n + length (freed_cells (concat hs)))"
proof (induction hs arbitrary: gc n)
  case Nil
  then show ?case by (simp add: freed_cells_def swept_head_def)
next
  case (Cons heap hs)
  show ?case
    by (simp add: sweep_cells_eq Cons.IH freed_cells_append swept_head_append add.assoc)
qed

lemma map_fst_swept_cells: "map fst (swept_cells h cs) = map fst cs"
proof (induction cs arbitrary: h)
  case Nil
  then show ?case by simp
next
  case (Cons x cs)
  obtain a c where x: "x = (a, c)" by (cases x)
  show ?case unfolding x by (simp add: Cons.IH)
qed

text \<open>What the sweep leaves in the cell at an address.\<close>

lemma map_of_swept_cells:
  "map_of cs a = None \<Longrightarrow> map_of (swept_cells h cs) a = None"
  "map_of cs a = Some c \<Longrightarrow> basic_mark c \<Longrightarrow>
     map_of (swept_cells h cs) a = Some (c\<lparr>basic_mark := False\<rparr>)"
  "map_of cs a = Some c \<Longrightarrow> \<not> basic_mark c \<Longrightarrow> basic_type c = kTypeDead \<Longrightarrow>
     map_of (swept_cells h cs) a = Some c"
  "map_of cs a = Some c \<Longrightarrow> \<not> basic_mark c \<Longrightarrow> basic_type c \<noteq> kTypeDead \<Longrightarrow>
     \<exists>n. map_of (swept_cells h cs) a = Some (dead_cell n)"
proof (induction cs arbitrary: h)
  case Nil
  {
    case 1 then show ?case by simp
  next
    case 2 then show ?case by simp
  next
    case 3 then show ?case by simp
  next
    case 4 then show ?case by simp
  }
next
  case (Cons x cs)
  obtain b d where x: "x = (b, d)" by (cases x)
  {
    case 1
    with Cons.IH(1) show ?case unfolding x by (simp split: if_splits)
  next
    case 2
    with Cons.IH(2) show ?case unfolding x by (auto split: if_splits)
  next
    case 3
    with Cons.IH(3) show ?case unfolding x by (auto split: if_splits)
  next
    case 4
    with Cons.IH(4) show ?case unfolding x by (auto split: if_splits)
  }
qed

text \<open>
  \<open>freelist_segment mem head as tail\<close>: following the \<open>next\<close> pointers from \<open>head\<close> visits the
  dead cells at the addresses \<open>as\<close>, in this order, and arrives at \<open>tail\<close>. The sweep puts the
  freed cells in front of the old freelist, the cell freed last first.
\<close>

fun freelist_segment :: "memory \<Rightarrow> addr \<Rightarrow> addr list \<Rightarrow> addr \<Rightarrow> bool" where
  "freelist_segment mem head [] tail = (head = tail)"
| "freelist_segment mem head (a # as) tail =
     (head = a \<and>
      (case mem a of
         None \<Rightarrow> False
       | Some c \<Rightarrow>
           (case cell_payload c of
              DeadCell next \<Rightarrow> freelist_segment mem next as tail
            | _ \<Rightarrow> False)))"

lemma freelist_segment_cong:
  assumes "\<forall>a \<in> set as. mem' a = mem a"
  shows "freelist_segment mem' head as tail = freelist_segment mem head as tail"
  using assms by (induction as arbitrary: head) (simp_all split: option.splits payload.splits)

lemma freelist_segment_snoc:
  "freelist_segment mem head (as @ [a]) tail \<longleftrightarrow>
     freelist_segment mem head as a \<and>
     (\<exists>c. mem a = Some c \<and> cell_payload c = DeadCell tail)"
proof (induction as arbitrary: head)
  case Nil
  show ?case
    by (auto split: option.splits payload.splits)
next
  case (Cons x as)
  then show ?case
    by (auto split: option.splits payload.splits)
qed

lemma swept_freelist:
  assumes "distinct (map fst cs)"
  shows "freelist_segment (map_of (swept_cells h cs)) (swept_head h cs)
           (rev (map fst (freed_cells cs))) h"
  using assms
proof (induction cs arbitrary: h)
  case Nil
  then show ?case by (simp add: swept_head_def freed_cells_def)
next
  case (Cons x cs)
  obtain a c where x: "x = (a, c)" by (cases x)
  from Cons.prems have d: "distinct (map fst cs)" and na: "a \<notin> fst ` set cs"
    by (simp_all add: x)
  have notin: "a \<notin> set (rev (map fst (freed_cells cs)))"
    using na by (auto simp add: freed_cells_def)
  show ?case
  proof (cases "\<not> basic_mark c \<and> basic_type c \<noteq> kTypeDead")
    case True
    define mem' where "mem' = map_of ((a, dead_cell h) # swept_cells a cs)"
    have agree: "\<forall>b \<in> set (rev (map fst (freed_cells cs))). mem' b = map_of (swept_cells a cs) b"
      using notin by (auto simp add: mem'_def)
    have seg: "freelist_segment mem' (swept_head a cs) (rev (map fst (freed_cells cs))) a"
      unfolding freelist_segment_cong [OF agree] using Cons.IH [OF d] .
    have ma: "mem' a = Some (dead_cell h)"
      by (simp add: mem'_def)
    have e: "swept_cells h (x # cs) = (a, dead_cell h) # swept_cells a cs"
      "swept_head h (x # cs) = swept_head a cs"
      "rev (map fst (freed_cells (x # cs))) = rev (map fst (freed_cells cs)) @ [a]"
      using True unfolding x by (simp_all add: freed_cells_Cons swept_head_Cons)
    show ?thesis
      unfolding e freelist_segment_snoc mem'_def [symmetric]
      using seg ma by (simp add: dead_cell_def)
  next
    case False
    define mem' where "mem' = map_of (swept_cells h (x # cs))"
    have agree: "\<forall>b \<in> set (rev (map fst (freed_cells cs))). mem' b = map_of (swept_cells h cs) b"
      using notin False unfolding mem'_def x by auto
    have seg: "freelist_segment mem' (swept_head h cs) (rev (map fst (freed_cells cs))) h"
      unfolding freelist_segment_cong [OF agree] using Cons.IH [OF d] .
    have e: "swept_head h (x # cs) = swept_head h cs"
      "rev (map fst (freed_cells (x # cs))) = rev (map fst (freed_cells cs))"
      using False unfolding x by (auto simp add: freed_cells_Cons swept_head_Cons)
    show ?thesis
      unfolding e mem'_def [symmetric] using seg .
  qed
qed


subsection \<open>Correctness of the collection\<close>

text \<open>
  Between collections no two cells share an address, the address of a cell is not null and
  fits the 48 pointer bits of a value, and no cell is marked.
\<close>

definition heap_invariant :: "arena list \<Rightarrow> bool" where
  "heap_invariant hs \<longleftrightarrow>
     distinct (map fst (concat hs)) \<and>
     (\<forall>(a, c) \<in> set (concat hs). a \<noteq> 0 \<and> a \<le> kMaxPointer \<and> \<not> basic_mark c)"

lemma heap_invariantD:
  assumes "heap_invariant hs"
  shows "distinct (map fst (concat hs))"
    and "(a, c) \<in> set (concat hs) \<Longrightarrow> a \<noteq> 0 \<and> a \<le> kMaxPointer \<and> \<not> basic_mark c"
    and "\<forall>(a, c) \<in> set (concat hs). \<not> basic_mark c"
  using assms unfolding heap_invariant_def by (simp, blast, blast)

lemma heap_invariantI:
  assumes "distinct (map fst cs)" "concat hs = cs"
    and "\<And>a c. (a, c) \<in> set cs \<Longrightarrow> a \<noteq> 0 \<and> a \<le> kMaxPointer \<and> \<not> basic_mark c"
  shows "heap_invariant hs"
  using assms unfolding heap_invariant_def by blast

abbreviation mark_cell :: "addr set \<Rightarrow> addr \<times> MemoryCell \<Rightarrow> addr \<times> MemoryCell" where
  "mark_cell S \<equiv> (\<lambda>(b, c). if b \<in> S then (b, c\<lparr>basic_mark := True\<rparr>) else (b, c))"

lemma map_fst_mark_cell: "map fst (map (mark_cell S) cs) = map fst cs"
  by (induction cs) auto

lemma unmark_unmarked: "\<not> basic_mark c \<Longrightarrow> c\<lparr>basic_mark := False\<rparr> = c"
  by simp

lemma freed_cells_mark_cell:
  assumes "\<forall>(a, c) \<in> set cs. \<not> basic_mark c"
  shows "freed_cells (map (mark_cell S) cs)
           = filter (\<lambda>(a, c). a \<notin> S \<and> basic_type c \<noteq> kTypeDead) cs"
  using assms by (induction cs) (auto simp add: freed_cells_def basic_type_def split: if_splits)

lemma swept_cells_unmarked: "\<forall>(a, c) \<in> set (swept_cells h cs). \<not> basic_mark c"
proof (induction cs arbitrary: h)
  case Nil
  then show ?case by simp
next
  case (Cons x cs)
  obtain a c where x: "x = (a, c)" by (cases x)
  show ?case
    unfolding x using Cons.IH by (auto simp add: dead_cell_def)
qed

lemma swept_head_no_freed: "freed_cells cs = [] \<Longrightarrow> swept_head h cs = h"
  by (simp add: swept_head_def)

lemma swept_cells_mark_cell_id:
  assumes "\<forall>(a, c) \<in> set cs. \<not> basic_mark c" "freed_cells (map (mark_cell S) cs) = []"
  shows "swept_cells h (map (mark_cell S) cs) = cs"
  using assms
proof (induction cs)
  case Nil
  then show ?case by simp
next
  case (Cons x cs)
  obtain a c where x: "x = (a, c)" by (cases x)
  from Cons.prems have u: "\<not> basic_mark c" and r: "\<forall>(a, c) \<in> set cs. \<not> basic_mark c"
    by (simp_all add: x)
  from Cons.prems(2) have f: "freed_cells (map (mark_cell S) cs) = []"
    and h: "a \<in> S \<or> basic_type c = kTypeDead"
    unfolding x by (auto simp add: freed_cells_Cons u split: if_splits)
  from h u show ?case
    unfolding x by (auto simp add: Cons.IH [OF r f] basic_type_def)
qed

lemma swept_heaps_mark_set_id:
  assumes "\<forall>(a, c) \<in> set (concat hs). \<not> basic_mark c"
    and "freed_cells (concat (mark_set S hs)) = []"
  shows "swept_heaps h (mark_set S hs) = hs"
  using assms
proof (induction hs)
  case Nil
  then show ?case by (simp add: mark_set_def)
next
  case (Cons x hs)
  have ms: "mark_set S (x # hs) = map (mark_cell S) x # mark_set S hs"
    by (simp add: mark_set_def)
  from Cons.prems(2) have f: "freed_cells (map (mark_cell S) x) = []"
    "freed_cells (concat (mark_set S hs)) = []"
    by (simp_all add: ms freed_cells_append)
  from Cons.prems(1) have u: "\<forall>(a, c) \<in> set x. \<not> basic_mark c"
    "\<forall>(a, c) \<in> set (concat hs). \<not> basic_mark c"
    by auto
  show ?case
    by (simp add: ms swept_head_no_freed [OF f(1)] swept_cells_mark_cell_id [OF u(1) f(1)]
        Cons.IH [OF u(2) f(2)])
qed

lemma reachable_agree:
  assumes "\<forall>a \<in> reachable mem vs. mem' a = mem a" and "dom mem' = dom mem"
  shows "reachable mem' vs = reachable mem vs"
proof (intro set_eqI iffI)
  fix a
  assume "a \<in> reachable mem' vs"
  then show "a \<in> reachable mem vs"
  proof induction
    case (reachable_root v a)
    with assms(2) have "points_to mem v a"
      by (auto simp add: points_to_def)
    with reachable_root show ?case by (auto intro: reachable.reachable_root)
  next
    case (reachable_step a c v b)
    from reachable_step(5) assms(1) reachable_step(2) have "mem a = Some c" by auto
    moreover from reachable_step(4) assms(2) have "points_to mem v b"
      by (auto simp add: points_to_def)
    ultimately show ?case
      using reachable_step(5,3) by (auto intro: reachable.reachable_step)
  qed
next
  fix a
  assume "a \<in> reachable mem vs"
  then show "a \<in> reachable mem' vs"
  proof induction
    case (reachable_root v a)
    with assms(2) have "points_to mem' v a"
      by (auto simp add: points_to_def)
    with reachable_root show ?case by (auto intro: reachable.reachable_root)
  next
    case (reachable_step a c v b)
    from reachable_step(1) assms(1) reachable_step(2) have "mem' a = Some c" by auto
    moreover from reachable_step(4) assms(2) have "points_to mem' v b"
      by (auto simp add: points_to_def)
    ultimately show ?case
      using reachable_step(5,3) by (auto intro: reachable.reachable_step)
  qed
qed

lemma heap_invariant_marked:
  assumes "heap_invariant hs"
  shows "marked hs = {}"
proof -
  have False if "heap_memory hs a = Some c" "basic_mark c" for a c
  proof -
    from that(1) have "(a, c) \<in> set (concat hs)"
      unfolding heap_memory_def by (rule map_of_SomeD)
    with heap_invariantD(2) [OF assms] that(2) show False by blast
  qed
  then show ?thesis
    unfolding marked_def by blast
qed

text \<open>The result of a collection, in terms of the cells reachable from the roots.\<close>

lemma collect_eq:
  fixes gc :: GarbageCollector and vm :: VM
  defines "R \<equiv> reachable (heap_memory (heaps gc)) (collect_roots gc vm)"
  defines "freed \<equiv> filter (\<lambda>(a, c). a \<notin> R \<and> basic_type c \<noteq> kTypeDead) (concat (heaps gc))"
  assumes "heap_invariant (heaps gc)"
  shows "collect gc vm =
     (gc\<lparr>clean_log := clean_log gc @ filter (\<lambda>(a, c). has_clean (basic_type c)) freed,
         free_cell := swept_head (free_cell gc) (concat (mark_set R (heaps gc))),
         remaining_free_cells := remaining_free_cells gc + of_nat (length freed),
         heaps := swept_heaps (free_cell gc) (mark_set R (heaps gc))\<rparr>,
      (if vm_running vm then vm\<lparr>vm_pop_queue := []\<rparr> else vm),
      length freed)"
proof -
  have m: "mark_each (heaps gc) (collect_roots gc vm) = mark_set R (heaps gc)"
    unfolding R_def using assms(3) by (intro mark_each_reachable heap_invariant_marked)
  have f: "freed_cells (concat (mark_set R (heaps gc))) = freed"
    unfolding freed_def concat_mark_set
    by (intro freed_cells_mark_cell heap_invariantD(3) assms(3))
  show ?thesis
    by (simp add: collect_def m sweep_heaps_eq f Let_def)
qed

lemma collect_heap_memory:
  assumes "heap_invariant (heaps gc)"
  shows "heap_memory (heaps (fst (collect gc vm))) =
     map_of (swept_cells (free_cell gc)
       (map (mark_cell (reachable (heap_memory (heaps gc)) (collect_roots gc vm)))
          (concat (heaps gc))))"
  by (simp add: collect_eq [OF assms] heap_memory_def concat_swept_heaps concat_mark_set)

lemma collect_cells:
  fixes gc :: GarbageCollector and vm :: VM
  defines "R \<equiv> reachable (heap_memory (heaps gc)) (collect_roots gc vm)"
  defines "mem1 \<equiv> heap_memory (heaps (fst (collect gc vm)))"
  assumes inv: "heap_invariant (heaps gc)" and c: "heap_memory (heaps gc) a = Some c"
  shows "\<not> basic_mark c"
    and "a \<in> R \<Longrightarrow> mem1 a = Some c"
    and "a \<notin> R \<Longrightarrow> basic_type c = kTypeDead \<Longrightarrow> mem1 a = Some c"
    and "a \<notin> R \<Longrightarrow> basic_type c \<noteq> kTypeDead \<Longrightarrow> \<exists>n. mem1 a = Some (dead_cell n)"
proof -
  from c have "(a, c) \<in> set (concat (heaps gc))"
    by (auto simp add: heap_memory_def dest: map_of_SomeD)
  with heap_invariantD(2) [OF inv] show u: "\<not> basic_mark c"
    by blast
  have mk: "map_of (map (mark_cell R) (concat (heaps gc))) a
      = Some (if a \<in> R then c\<lparr>basic_mark := True\<rparr> else c)"
    using c by (simp add: map_of_mark_cells heap_memory_def)
  have m1: "mem1 = map_of (swept_cells (free_cell gc) (map (mark_cell R) (concat (heaps gc))))"
    unfolding mem1_def R_def by (rule collect_heap_memory [OF inv])
  show "a \<in> R \<Longrightarrow> mem1 a = Some c"
    using map_of_swept_cells(2) [OF mk, of "free_cell gc"] u by (simp add: m1)
  show "a \<notin> R \<Longrightarrow> basic_type c = kTypeDead \<Longrightarrow> mem1 a = Some c"
    using map_of_swept_cells(3) [OF mk, of "free_cell gc"] u by (simp add: m1)
  show "a \<notin> R \<Longrightarrow> basic_type c \<noteq> kTypeDead \<Longrightarrow> \<exists>n. mem1 a = Some (dead_cell n)"
    using map_of_swept_cells(4) [OF mk, of "free_cell gc"] u by (simp add: m1)
qed

lemma collect_concat:
  assumes "heap_invariant (heaps gc)"
  shows "concat (heaps (fst (collect gc vm))) =
     swept_cells (free_cell gc)
       (map (mark_cell (reachable (heap_memory (heaps gc)) (collect_roots gc vm)))
          (concat (heaps gc)))"
  by (simp add: collect_eq [OF assms] concat_swept_heaps concat_mark_set)

lemma collect_addresses:
  assumes "heap_invariant (heaps gc)"
  shows "map fst (concat (heaps (fst (collect gc vm)))) = map fst (concat (heaps gc))"
  unfolding collect_concat [OF assms] map_fst_swept_cells map_fst_mark_cell ..

lemma collect_invariant:
  assumes "heap_invariant (heaps gc)"
  shows "heap_invariant (heaps (fst (collect gc vm)))"
proof -
  define cs where "cs = concat (heaps gc)"
  define cs1 where "cs1 = concat (heaps (fst (collect gc vm)))"
  have a: "map fst cs1 = map fst cs"
    unfolding cs_def cs1_def by (rule collect_addresses [OF assms])
  have u: "\<forall>(a, c) \<in> set cs1. \<not> basic_mark c"
    unfolding cs1_def collect_concat [OF assms] by (rule swept_cells_unmarked)
  have v: "a \<noteq> 0 \<and> a \<le> kMaxPointer" if "a \<in> set (map fst cs)" for a
    using that heap_invariantD(2) [OF assms] unfolding cs_def by fastforce
  have "a \<noteq> 0 \<and> a \<le> kMaxPointer \<and> \<not> basic_mark c" if "(a, c) \<in> set cs1" for a c
  proof -
    from that have "a \<in> set (map fst cs1)" by force
    with v u that show ?thesis unfolding a by blast
  qed
  moreover have "distinct (map fst cs1)"
    unfolding a cs_def by (rule heap_invariantD(1) [OF assms])
  ultimately show ?thesis
    by (intro heap_invariantI [of cs1]) (simp_all add: cs1_def)
qed

lemma collect_dom:
  assumes "heap_invariant (heaps gc)"
  shows "dom (heap_memory (heaps (fst (collect gc vm)))) = dom (heap_memory (heaps gc))"
  unfolding heap_memory_def dom_map_of_conv_image_fst
  using collect_addresses [OF assms, of vm] by (metis set_map)

text \<open>
  A collection of a machine with an empty pop queue changes neither the roots nor the
  reachable cells, and leaves no unreachable cell that is not dead: collecting again
  changes nothing.
\<close>

lemma collect_twice:
  fixes gc :: GarbageCollector and vm :: VM
  defines "gc1 \<equiv> fst (collect gc vm)" and "vm1 \<equiv> fst (snd (collect gc vm))"
  assumes inv: "heap_invariant (heaps gc)" and pq: "vm_running vm \<longrightarrow> vm_pop_queue vm = []"
  shows "collect gc1 vm1 = (gc1, vm1, 0)"
proof -
  define R where "R = reachable (heap_memory (heaps gc)) (collect_roots gc vm)"
  have inv1: "heap_invariant (heaps gc1)"
    unfolding gc1_def by (rule collect_invariant [OF inv])
  have vm1: "vm1 = vm"
    using pq by (simp add: vm1_def collect_eq [OF inv])
  have roots: "collect_roots gc1 vm1 = collect_roots gc vm"
    by (simp add: vm1 collect_roots_def gc1_def collect_eq [OF inv])
  have agree: "\<forall>a \<in> R. heap_memory (heaps gc1) a = heap_memory (heaps gc) a"
  proof
    fix a
    assume a: "a \<in> R"
    then obtain c where c: "heap_memory (heaps gc) a = Some c"
      using reachable_dom [of a] unfolding R_def by blast
    from collect_cells(2) [OF inv c, of vm] a show "heap_memory (heaps gc1) a = heap_memory (heaps gc) a"
      by (simp add: c R_def gc1_def)
  qed
  have R1: "reachable (heap_memory (heaps gc1)) (collect_roots gc1 vm1) = R"
    unfolding roots R_def
    using agree collect_dom [OF inv, of vm]
    by (intro reachable_agree) (simp_all add: R_def gc1_def)
  have dead: "basic_type c1 = kTypeDead" if "(a, c1) \<in> set (concat (heaps gc1))" "a \<notin> R" for a c1
  proof -
    from that(1) heap_invariantD(1) [OF inv1] have m1: "heap_memory (heaps gc1) a = Some c1"
      by (simp add: heap_memory_def)
    then have "a \<in> dom (heap_memory (heaps gc))"
      using collect_dom [OF inv, of vm] by (auto simp add: gc1_def)
    then obtain c where c: "heap_memory (heaps gc) a = Some c" by blast
    show ?thesis
    proof (cases "basic_type c = kTypeDead")
      case True
      from collect_cells(3) [OF inv c _ True, of vm] that(2) m1 True show ?thesis
        by (simp add: R_def gc1_def)
    next
      case False
      from collect_cells(4) [OF inv c _ False, of vm] that(2) m1 show ?thesis
        by (auto simp add: R_def gc1_def dead_cell_def basic_type_def)
    qed
  qed
  have freed: "filter (\<lambda>(a, c). a \<notin> R \<and> basic_type c \<noteq> kTypeDead) (concat (heaps gc1)) = []"
    unfolding filter_empty_conv using dead by blast
  have unm: "\<forall>(a, c) \<in> set (concat (heaps gc1)). \<not> basic_mark c"
    by (rule heap_invariantD(3) [OF inv1])
  have fc: "freed_cells (concat (mark_set R (heaps gc1))) = []"
    unfolding concat_mark_set freed_cells_mark_cell [OF unm] by (rule freed)
  have hs: "swept_heaps (free_cell gc1) (mark_set R (heaps gc1)) = heaps gc1"
    by (rule swept_heaps_mark_set_id [OF unm fc])
  have hd: "swept_head (free_cell gc1) (concat (mark_set R (heaps gc1))) = free_cell gc1"
    by (rule swept_head_no_freed [OF fc])
  have q1: "vm_running vm1 \<longrightarrow> vm1\<lparr>vm_pop_queue := []\<rparr> = vm1"
    using pq by (simp add: vm1)
  show ?thesis
    using q1 by (simp add: collect_eq [OF inv1] R1 freed hs hd)
qed

subsection \<open>Roots and references in the words of the specification\<close>

text \<open>
  A second definition of reachability, which follows the words of the specification and
  not the code of the collector; the collector is compared with it below.

  \<open>spec_root_set\<close> is the root set of section 4.2 of the specification: the frame chain,
  the catch-table chain, the operand stack and the pop queue; the object of the global
  variables and the reference to the class of each primitive type; the handler of uncaught
  exceptions and the class of internal errors; for every task of the task queue its
  function and its four arguments, or only its argument if it is a fiber task; the
  function and the four arguments of every timer and every ticker; the stack, the frame
  and the catch table of every suspended fiber; the native target, the callback, the error
  value and the arguments of every worker thread; and every pinned temporary.
\<close>

definition spec_root_set :: "GarbageCollector \<Rightarrow> VM \<Rightarrow> VALUE set" where
  "spec_root_set gc vm =
     {charly_create_pointer (vm_frames vm), charly_create_pointer (vm_catchstack vm)} \<union>
     set (vm_stack vm) \<union> set (vm_pop_queue vm) \<union>
     {vm_globals vm, vm_primitive_number vm, vm_primitive_string vm, vm_primitive_array vm,
      vm_primitive_object vm, vm_primitive_function vm, vm_primitive_generator vm,
      vm_primitive_boolean vm, vm_primitive_null vm, vm_primitive_class vm,
      vm_primitive_value vm} \<union>
     {vm_uncaught_exception_handler vm, vm_internal_error_class vm} \<union>
     (\<Union>task \<in> set (vm_task_queue vm).
        if task_is_thread task then {thread_argument task}
        else insert (callback_func task) (set (callback_arguments task))) \<union>
     (\<Union>task \<in> set (vm_timers vm) \<union> set (vm_tickers vm).
        insert (callback_func task) (set (callback_arguments task))) \<union>
     (\<Union>thread \<in> set (vm_paused_threads vm).
        set (thr_stack thread) \<union>
        {charly_create_pointer (thr_frame thread), charly_create_pointer (thr_catchstack thread)}) \<union>
     (\<Union>entry \<in> set (vm_worker_threads vm).
        {charly_create_pointer (wt_cfunc entry), charly_create_pointer (wt_callback entry),
         wt_error_value entry} \<union> set (wt_arguments entry)) \<union>
     set (temporaries gc)"

text \<open>
  \<open>spec_referenced_fields\<close> lists the fields of a cell that the specification has the mark
  phase walk: an object refers to its class and to the values of its map, an array to its
  values; a class to constructor, prototype, parent and property map; a function to the
  captured frame, the host class, the bound self where it has one and the property map; a
  native function to its property map; a generator to its saved state (frame, catch
  table, boot function, operand stack, and the bound self where it has one) only while it
  is not finished, and to its property map; a frame to parent, lexical parent, last catch
  table, caller, self and every local; a catch table to frame and parent. Strings, native
  pointers and dead cells refer to nothing.
\<close>

definition spec_referenced_fields :: "MemoryCell \<Rightarrow> VALUE set" where
  "spec_referenced_fields c =
     (case cell_payload c of
        ObjectCell obj \<Rightarrow> insert (obj_klass obj) (snd ` set (obj_container obj))
      | ArrayCell arr \<Rightarrow> set (arr_data arr)
      | ClassCell klass \<Rightarrow>
          {cls_constructor klass, cls_prototype klass, cls_parent_class klass} \<union>
          snd ` set (cls_container klass)
      | FunctionCell func \<Rightarrow>
          {charly_create_pointer (fn_context func), fn_host_class func} \<union>
          (if fn_bound_self_set func then {fn_bound_self func} else {}) \<union>
          snd ` set (fn_container func)
      | CFunctionCell cfunc \<Rightarrow> snd ` set (cfn_container cfunc)
      | GeneratorCell gen \<Rightarrow>
          (if generator_finished c then {}
           else {charly_create_pointer (gen_context_frame gen),
                 charly_create_pointer (gen_context_catchtable gen),
                 charly_create_pointer (gen_boot_function gen)} \<union>
                set (gen_context_stack gen) \<union>
                (if gen_bound_self_set gen then {gen_bound_self gen} else {})) \<union>
          snd ` set (gen_container gen)
      | FrameCell frame \<Rightarrow>
          {charly_create_pointer (frm_parent frame),
           charly_create_pointer (frm_parent_environment_frame frame),
           charly_create_pointer (frm_last_active_catchtable frame),
           frm_caller_value frame, frm_self frame} \<union>
          set (Frame_locals c frame)
      | CatchTableCell table \<Rightarrow>
          {charly_create_pointer (ct_frame table), charly_create_pointer (ct_parent table)}
      | _ \<Rightarrow> {})"

text \<open>
  A cell is reachable when a root is a pointer to it, or a field of a reachable cell is.
\<close>

inductive_set spec_reachable :: "memory \<Rightarrow> VALUE set \<Rightarrow> addr set" for mem roots where
  spec_reachable_root:
    "v \<in> roots \<Longrightarrow> points_to mem v a \<Longrightarrow> a \<in> spec_reachable mem roots"
| spec_reachable_field:
    "a \<in> spec_reachable mem roots \<Longrightarrow> mem a = Some c \<Longrightarrow> v \<in> spec_referenced_fields c \<Longrightarrow>
     points_to mem v b \<Longrightarrow> b \<in> spec_reachable mem roots"

text \<open>
  The collector follows exactly these fields and, for a running machine, marks exactly
  these roots; a null pointer among the roots of the specification points to no cell. When
  the machine is not running, \<open>collect\<close> marks the temporaries only.
\<close>

lemma mark_children_spec: "set (mark_children c) = spec_referenced_fields c"
  by (cases "cell_payload c")
    (auto simp add: mark_children_def spec_referenced_fields_def)

lemma reachable_spec_reachable: "reachable mem vs = spec_reachable mem (set vs)"
proof (intro set_eqI iffI)
  fix a
  assume "a \<in> reachable mem vs"
  then show "a \<in> spec_reachable mem (set vs)"
  proof induction
    case (reachable_root v a)
    then show ?case by (rule spec_reachable_root)
  next
    case (reachable_step a c v b)
    from reachable_step(5,2) _ reachable_step(4) show ?case
      by (rule spec_reachable_field) (use reachable_step(3) in \<open>simp add: mark_children_spec\<close>)
  qed
next
  fix a
  assume "a \<in> spec_reachable mem (set vs)"
  then show "a \<in> reachable mem vs"
  proof induction
    case (spec_reachable_root v a)
    then show ?case by (rule reachable_root)
  next
    case (spec_reachable_field a c v b)
    from spec_reachable_field(5,2) _ spec_reachable_field(4) show ?case
      by (rule reachable_step) (use spec_reachable_field(3) in \<open>simp add: mark_children_spec\<close>)
  qed
qed

lemma spec_reachable_mono:
  assumes "\<And>v a. v \<in> S \<Longrightarrow> points_to mem v a \<Longrightarrow> \<exists>w \<in> T. points_to mem w a"
  shows "spec_reachable mem S \<subseteq> spec_reachable mem T"
proof
  fix a
  assume "a \<in> spec_reachable mem S"
  then show "a \<in> spec_reachable mem T"
  proof induction
    case (spec_reachable_root v a)
    with assms obtain w where "w \<in> T" "points_to mem w a" by blast
    then show ?case by (rule spec_reachable.spec_reachable_root)
  next
    case (spec_reachable_field a c v b)
    from spec_reachable_field(5,2,3,4) show ?case
      by (rule spec_reachable.spec_reachable_field)
  qed
qed

lemma null_points_nowhere: "\<not> points_to mem kNull a"
  by (simp add: points_to_def charly_is_ptr_def value_consts)

lemma create_pointer_null: "charly_create_pointer 0 = kNull"
  by (simp add: charly_create_pointer_def)

lemma collect_roots_spec_root_set:
  assumes "vm_running vm"
  shows "set (collect_roots gc vm) \<subseteq> spec_root_set gc vm"
    and "spec_root_set gc vm \<subseteq> insert kNull (set (collect_roots gc vm))"
  using assms
  unfolding collect_roots_def vm_roots_def spec_root_set_def task_roots_def timer_roots_def
    paused_thread_roots_def worker_thread_roots_def
  by (auto simp add: create_pointer_null split: if_splits)

lemma collect_roots_spec:
  "reachable mem (collect_roots gc vm) =
     spec_reachable mem (if vm_running vm then spec_root_set gc vm else set (temporaries gc))"
proof (cases "vm_running vm")
  case True
  have "spec_reachable mem (set (collect_roots gc vm)) = spec_reachable mem (spec_root_set gc vm)"
  proof (intro equalityI spec_reachable_mono)
    fix v a
    assume "v \<in> set (collect_roots gc vm)" "points_to mem v a"
    with collect_roots_spec_root_set(1) [OF True, of gc]
    show "\<exists>w \<in> spec_root_set gc vm. points_to mem w a" by blast
  next
    fix v a
    assume "v \<in> spec_root_set gc vm" "points_to mem v a"
    with collect_roots_spec_root_set(2) [OF True, of gc] null_points_nowhere [of mem a]
    show "\<exists>w \<in> set (collect_roots gc vm). points_to mem w a" by blast
  qed
  with True show ?thesis
    by (simp add: reachable_spec_reachable)
next
  case False
  then show ?thesis
    by (simp add: reachable_spec_reachable collect_roots_def)
qed

subsection \<open>What a collection frees\<close>

text \<open>
  The cells that are live at the time of a collection are the cells reachable, in the
  sense of the specification, from the root set of the specification when the machine is
  running, and from the temporaries alone when it is not: \<open>collect\<close> reads no root of a
  machine that is not running. The cells the collection has to free are the other cells
  that are not dead, in the order of the sweep.
\<close>

definition live_cells :: "GarbageCollector \<Rightarrow> VM \<Rightarrow> addr set" where
  "live_cells gc vm =
     spec_reachable (heap_memory (heaps gc))
       (if vm_running vm then spec_root_set gc vm else set (temporaries gc))"

lemma live_cells_reachable:
  "live_cells gc vm = reachable (heap_memory (heaps gc)) (collect_roots gc vm)"
  by (simp add: live_cells_def collect_roots_spec)

definition garbage_cells :: "GarbageCollector \<Rightarrow> VM \<Rightarrow> arena" where
  "garbage_cells gc vm =
     filter (\<lambda>(a, c). a \<notin> live_cells gc vm \<and> basic_type c \<noteq> kTypeDead) (concat (heaps gc))"

text \<open>
  A running machine without roots, and a collector with one arena of two cells: an object
  at \<open>0x1000\<close> and the freelist, the dead cell at \<open>0x2000\<close>. In \<open>popped_vm\<close> the pop queue holds
  the only pointer to the object.
\<close>

definition idle_vm :: VM where
  "idle_vm =
     \<lparr>vm_running = True, vm_frames = 0, vm_catchstack = 0,
      vm_uncaught_exception_handler = kNull, vm_internal_error_class = kNull, vm_globals = kNull,
      vm_primitive_array = kNull, vm_primitive_boolean = kNull, vm_primitive_class = kNull,
      vm_primitive_function = kNull, vm_primitive_generator = kNull, vm_primitive_null = kNull,
      vm_primitive_number = kNull, vm_primitive_object = kNull, vm_primitive_string = kNull,
      vm_primitive_value = kNull, vm_stack = [], vm_pop_queue = [], vm_task_queue = [],
      vm_timers = [], vm_tickers = [], vm_paused_threads = [], vm_worker_threads = []\<rparr>"

definition example_config :: GarbageCollectorConfig where
  "example_config = \<lparr>heap_cell_count = 2, heap_growth_factor = 2, min_free_cells = 0\<rparr>"

abbreviation example_object :: MemoryCell where
  "example_object \<equiv> plain_cell (ObjectCell \<lparr>obj_klass = kNull, obj_container = []\<rparr>)"

definition popped_gc :: GarbageCollector where
  "popped_gc =
     \<lparr>config = example_config,
      heaps = [[(0x1000, example_object), (0x2000, dead_cell 0)]],
      free_cell = 0x2000, remaining_free_cells = 1, temporaries = [], clean_log = [],
      err_stream = []\<rparr>"

definition popped_vm :: VM where
  "popped_vm = idle_vm\<lparr>vm_pop_queue := [0xfff8000000001000]\<rparr>"

lemmas collect_eval = collect_def collect_roots_def vm_roots_def idle_vm_def mark.simps
  charly_create_pointer_def charly_is_ptr_def charly_as_pointer_def value_consts
  heap_memory_def set_mark_def mark_children_def deallocate_def has_clean_def basic_type_def
  dead_cell_def kMaxPointer_def

text \<open>
  Claim C1, as stated, fails at this machine. The first collection marks the object
  through the pop queue, frees nothing and leaves the queue empty. The second collection,
  with nothing changed in between, finds the object unreachable and frees it: it frees one
  cell, not zero.
\<close>

theorem collect_twice_frees_counterexample:
  "collect popped_gc popped_vm = (popped_gc, idle_vm, 0) \<and>
   collect popped_gc idle_vm =
     (popped_gc\<lparr>heaps := [[(0x1000, dead_cell 0x2000), (0x2000, dead_cell 0)]],
        free_cell := 0x1000, remaining_free_cells := 2,
        clean_log := [(0x1000, example_object)]\<rparr>, idle_vm, 1)"
  by (simp add: popped_gc_def popped_vm_def collect_eval)

text \<open>
  Claim C1, amended. The root set of a collection is the root set of the specification
  when the machine is running, and only the pinned temporaries when it is not. After
  \<open>collect\<close> returns, every cell that was reachable from this root set (\<open>live_cells\<close>) keeps
  its contents and has its mark bit clear; every other cell that was not dead has had the
  \<open>clean\<close> function of its type run (once, on its old contents, if its type has one), is
  zeroed and tagged dead, and the freed cells are linked in front of the old freelist,
  each once; a cell that was dead is left as it was and is not deallocated again. The
  number of freed cells is returned and added to the counter of free cells. The pop queue
  of a running machine is empty afterwards. A second collection with no mutation in
  between frees no cell and changes nothing, provided the pop queue was empty at the first
  collection or the machine is not running.
\<close>

theorem collect_frees_unreachable:
  assumes "heap_invariant (heaps gc)" and "collect gc vm = (gc1, vm1, n)"
  shows
    "(\<forall>a c. heap_memory (heaps gc) a = Some c \<longrightarrow>
        (if a \<in> live_cells gc vm then heap_memory (heaps gc1) a = Some c \<and> \<not> basic_mark c
         else if basic_type c = kTypeDead then heap_memory (heaps gc1) a = Some c
         else (\<exists>next. heap_memory (heaps gc1) a = Some (dead_cell next)) \<and>
              (a, c) \<in> set (garbage_cells gc vm))) \<and>
     map fst (concat (heaps gc1)) = map fst (concat (heaps gc)) \<and>
     distinct (map fst (garbage_cells gc vm)) \<and>
     freelist_segment (heap_memory (heaps gc1)) (free_cell gc1)
       (rev (map fst (garbage_cells gc vm))) (free_cell gc) \<and>
     clean_log gc1 =
       clean_log gc @ filter (\<lambda>(a, c). has_clean (basic_type c)) (garbage_cells gc vm) \<and>
     n = length (garbage_cells gc vm) \<and>
     remaining_free_cells gc1 = remaining_free_cells gc + of_nat n \<and>
     heap_invariant (heaps gc1) \<and>
     vm1 = (if vm_running vm then vm\<lparr>vm_pop_queue := []\<rparr> else vm) \<and>
     ((vm_running vm \<longrightarrow> vm_pop_queue vm = []) \<longrightarrow> collect gc1 vm1 = (gc1, vm1, 0))"
proof -
  note inv = assms(1)
  define R where "R = reachable (heap_memory (heaps gc)) (collect_roots gc vm)"
  define cs where "cs = map (mark_cell R) (concat (heaps gc))"
  have gc1: "gc1 = fst (collect gc vm)" and vm1: "vm1 = fst (snd (collect gc vm))"
    and n: "n = snd (snd (collect gc vm))"
    by (simp_all add: assms(2))
  have live: "live_cells gc vm = R"
    unfolding R_def by (rule live_cells_reachable)
  have garbage: "garbage_cells gc vm = freed_cells cs"
    unfolding garbage_cells_def live cs_def
    by (rule freed_cells_mark_cell [symmetric, OF heap_invariantD(3) [OF inv]])
  have d: "distinct (map fst cs)"
    unfolding cs_def map_fst_mark_cell by (rule heap_invariantD(1) [OF inv])
  have cells: "if a \<in> live_cells gc vm then heap_memory (heaps gc1) a = Some c \<and> \<not> basic_mark c
         else if basic_type c = kTypeDead then heap_memory (heaps gc1) a = Some c
         else (\<exists>next. heap_memory (heaps gc1) a = Some (dead_cell next)) \<and>
              (a, c) \<in> set (garbage_cells gc vm)"
    if c: "heap_memory (heaps gc) a = Some c" for a c
  proof -
    from c have m: "(a, c) \<in> set (concat (heaps gc))"
      unfolding heap_memory_def by (rule map_of_SomeD)
    have g: "(a, c) \<in> set (garbage_cells gc vm)" if "a \<notin> R" "basic_type c \<noteq> kTypeDead"
      using that m by (simp add: garbage_cells_def live)
    from collect_cells(1) [OF inv c] collect_cells(2-4) [OF inv c, of vm] g show ?thesis
      unfolding live gc1 R_def by simp
  qed
  have mem1: "heap_memory (heaps gc1) = map_of (swept_cells (free_cell gc) cs)"
    unfolding gc1 cs_def R_def by (rule collect_heap_memory [OF inv])
  have head: "free_cell gc1 = swept_head (free_cell gc) cs"
    unfolding gc1 cs_def R_def by (simp add: collect_eq [OF inv] concat_mark_set)
  have segment: "freelist_segment (heap_memory (heaps gc1)) (free_cell gc1)
       (rev (map fst (garbage_cells gc vm))) (free_cell gc)"
    unfolding mem1 head garbage by (rule swept_freelist [OF d])
  have dg: "distinct (map fst (garbage_cells gc vm))"
    unfolding garbage_cells_def using heap_invariantD(1) [OF inv] by (rule distinct_map_filter)
  have log: "clean_log gc1 =
       clean_log gc @ filter (\<lambda>(a, c). has_clean (basic_type c)) (garbage_cells gc vm)"
    unfolding gc1 garbage_cells_def live R_def by (simp add: collect_eq [OF inv])
  have count: "n = length (garbage_cells gc vm)"
    unfolding n garbage_cells_def live R_def by (simp add: collect_eq [OF inv])
  have remaining: "remaining_free_cells gc1 = remaining_free_cells gc + of_nat n"
    unfolding count unfolding gc1 garbage_cells_def live R_def by (simp add: collect_eq [OF inv])
  have inv1: "heap_invariant (heaps gc1)"
    unfolding gc1 by (rule collect_invariant [OF inv])
  have vm: "vm1 = (if vm_running vm then vm\<lparr>vm_pop_queue := []\<rparr> else vm)"
    unfolding vm1 by (simp add: collect_eq [OF inv])
  have twice: "collect gc1 vm1 = (gc1, vm1, 0)" if "vm_running vm \<longrightarrow> vm_pop_queue vm = []"
    unfolding gc1 vm1 using inv that by (rule collect_twice)
  have addresses: "map fst (concat (heaps gc1)) = map fst (concat (heaps gc))"
    unfolding gc1 by (rule collect_addresses [OF inv])
  from cells addresses dg segment log count remaining inv1 vm twice show ?thesis
    by blast
qed

text \<open>
  An arena of four cells. The stack of the machine points to the object at \<open>0x1000\<close>; the
  object holds the only pointer to the array at \<open>0x2000\<close>, which points back to the object;
  the array at \<open>0x3000\<close> points to the array at \<open>0x2000\<close> and nothing points to it; the dead
  cell at \<open>0x4000\<close> is the freelist. The collection keeps the object and the array it refers
  to, and frees the array at \<open>0x3000\<close>.
\<close>

definition linked_object :: MemoryCell where
  "linked_object =
     plain_cell (ObjectCell
       \<lparr>obj_klass = kNull, obj_container = [(0x7ffd000000000007, 0xfff8000000002000)]\<rparr>)"

definition example_array :: MemoryCell where
  "example_array = plain_cell (ArrayCell \<lparr>arr_data = [0xfff8000000001000]\<rparr>)"

definition garbage_array :: MemoryCell where
  "garbage_array = plain_cell (ArrayCell \<lparr>arr_data = [0xfff8000000002000]\<rparr>)"

definition example_gc :: GarbageCollector where
  "example_gc =
     \<lparr>config = example_config\<lparr>heap_cell_count := 4\<rparr>,
      heaps = [[(0x1000, linked_object), (0x2000, example_array), (0x3000, garbage_array),
                (0x4000, dead_cell 0)]],
      free_cell = 0x4000, remaining_free_cells = 1, temporaries = [], clean_log = [],
      err_stream = []\<rparr>"

definition example_vm :: VM where
  "example_vm = idle_vm\<lparr>vm_stack := [0xfff8000000001000]\<rparr>"

definition example_gc_collected :: GarbageCollector where
  "example_gc_collected =
     example_gc\<lparr>heaps :=
         [[(0x1000, linked_object), (0x2000, example_array), (0x3000, dead_cell 0x4000),
           (0x4000, dead_cell 0)]],
        free_cell := 0x3000, remaining_free_cells := 2,
        clean_log := [(0x3000, garbage_array)]\<rparr>"

lemmas example_cells = linked_object_def example_array_def garbage_array_def

theorem collect_frees_unreachable_witness:
  "heap_invariant (heaps example_gc) \<and>
   collect example_gc example_vm = (example_gc_collected, example_vm, 1) \<and>
   0x1000 \<in> live_cells example_gc example_vm \<and>
   0x2000 \<in> live_cells example_gc example_vm \<and>
   0x3000 \<notin> live_cells example_gc example_vm \<and>
   garbage_cells example_gc example_vm = [(0x3000, garbage_array)] \<and>
   heap_memory (heaps example_gc_collected) 0x1000 = Some linked_object \<and>
   heap_memory (heaps example_gc_collected) 0x2000 = Some example_array \<and>
   heap_memory (heaps example_gc_collected) 0x3000 = Some (dead_cell 0x4000) \<and>
   heap_memory (heaps example_gc_collected) 0x4000 = Some (dead_cell 0) \<and>
   heap_invariant (heaps example_gc_collected) \<and>
   collect example_gc_collected example_vm = (example_gc_collected, example_vm, 0)"
proof -
  have inv: "heap_invariant (heaps example_gc)"
    by (simp add: heap_invariant_def example_gc_def kMaxPointer_def dead_cell_def example_cells)
  have c: "collect example_gc example_vm = (example_gc_collected, example_vm, 1)"
    by (simp add: example_gc_def example_vm_def example_gc_collected_def example_cells
        example_config_def collect_eval)
  note t = collect_frees_unreachable [OF inv c]
  have mem: "heap_memory (heaps example_gc) 0x1000 = Some linked_object"
    "heap_memory (heaps example_gc) 0x2000 = Some example_array"
    "heap_memory (heaps example_gc) 0x3000 = Some garbage_array"
    by (simp_all add: heap_memory_def example_gc_def)
  have mem1: "heap_memory (heaps example_gc_collected) 0x1000 = Some linked_object"
    "heap_memory (heaps example_gc_collected) 0x2000 = Some example_array"
    "heap_memory (heaps example_gc_collected) 0x3000 = Some (dead_cell 0x4000)"
    "heap_memory (heaps example_gc_collected) 0x4000 = Some (dead_cell 0)"
    by (simp_all add: heap_memory_def example_gc_collected_def)
  from t have cells:
    "if a \<in> live_cells example_gc example_vm
     then heap_memory (heaps example_gc_collected) a = Some c \<and> \<not> basic_mark c
     else if basic_type c = kTypeDead then heap_memory (heaps example_gc_collected) a = Some c
     else (\<exists>next. heap_memory (heaps example_gc_collected) a = Some (dead_cell next)) \<and>
          (a, c) \<in> set (garbage_cells example_gc example_vm)"
    if "heap_memory (heaps example_gc) a = Some c" for a c
    using that by blast
  have l1: "0x1000 \<in> live_cells example_gc example_vm"
    using cells [OF mem(1)] mem1(1)
    by (simp add: dead_cell_def basic_type_def linked_object_def split: if_splits)
  have l2: "0x2000 \<in> live_cells example_gc example_vm"
    using cells [OF mem(2)] mem1(2)
    by (simp add: dead_cell_def basic_type_def example_array_def split: if_splits)
  have l3: "0x3000 \<notin> live_cells example_gc example_vm"
    using cells [OF mem(3)] mem1(3)
    by (simp add: dead_cell_def garbage_array_def split: if_splits)
  have hs: "heaps example_gc =
      [[(0x1000, linked_object), (0x2000, example_array), (0x3000, garbage_array),
        (0x4000, dead_cell 0)]]"
    by (simp add: example_gc_def)
  have g: "garbage_cells example_gc example_vm = [(0x3000, garbage_array)]"
    unfolding garbage_cells_def hs
    by (simp add: l1 l2 l3 basic_type_def dead_cell_def example_cells)
  have q: "vm_pop_queue example_vm = []"
    by (simp add: example_vm_def idle_vm_def)
  from t q have i: "heap_invariant (heaps example_gc_collected)"
    and s: "collect example_gc_collected example_vm = (example_gc_collected, example_vm, 0)"
    by simp_all
  from inv c l1 l2 l3 g mem1 i s show ?thesis
    by simp
qed

text \<open>
  The same heap and the same stack, in a machine that is not running: \<open>collect\<close> reads no
  root of the machine, and the object the stack points to is freed with every other cell.
\<close>

definition stopped_vm :: VM where
  "stopped_vm = example_vm\<lparr>vm_running := False\<rparr>"

theorem collect_stopped_machine_frees_stack_cell:
  "vm_stack stopped_vm = [0xfff8000000001000] \<and>
   collect example_gc stopped_vm =
     (example_gc\<lparr>heaps :=
          [[(0x1000, dead_cell 0x4000), (0x2000, dead_cell 0x1000), (0x3000, dead_cell 0x2000),
            (0x4000, dead_cell 0)]],
        free_cell := 0x3000, remaining_free_cells := 4,
        clean_log := [(0x1000, linked_object), (0x2000, example_array), (0x3000, garbage_array)]\<rparr>,
      stopped_vm, 3)"
  by (simp add: example_gc_def example_vm_def stopped_vm_def example_cells example_config_def
      collect_eval)


subsection \<open>Allocation and growth\<close>

text \<open>
  The number of arenas that \<open>grow_heap\<close> adds, computed in \<open>size_t\<close>, and the line that
  \<open>allocate\<close> writes to the error stream when the freelist is empty after the growth.
\<close>

definition heaps_to_add :: "GarbageCollector \<Rightarrow> 64 word" where
  "heaps_to_add gc =
     (of_nat (length (heaps gc)) * heap_growth_factor (config gc) + 1) - of_nat (length (heaps gc))"

definition expand_failure :: string where
  "expand_failure = ''Failed to expand heap, the next allocation will cause a segfault.''"

lemma add_heap_fields:
  "length (heaps (add_heap calloc gc)) = length (heaps gc) + 1"
  "config (add_heap calloc gc) = config gc"
  "remaining_free_cells (add_heap calloc gc)
     = remaining_free_cells gc + heap_cell_count (config gc)"
  "err_stream (add_heap calloc gc) = err_stream gc"
  by (simp_all add: add_heap_def Let_def)

lemma add_heap_free_cell:
  assumes "heap_cell_count (config gc) \<noteq> 0" and "\<forall>k i. calloc k i \<noteq> 0"
  shows "free_cell (add_heap calloc gc) \<noteq> 0"
  using assms by (simp add: add_heap_def Let_def unat_eq_0)

lemma add_heaps_fields:
  "length (heaps ((add_heap calloc ^^ n) gc)) = length (heaps gc) + n"
  "config ((add_heap calloc ^^ n) gc) = config gc"
  "remaining_free_cells ((add_heap calloc ^^ n) gc)
     = remaining_free_cells gc + of_nat n * heap_cell_count (config gc)"
  "err_stream ((add_heap calloc ^^ n) gc) = err_stream gc"
proof -
  have "length (heaps ((add_heap calloc ^^ n) gc)) = length (heaps gc) + n \<and>
    config ((add_heap calloc ^^ n) gc) = config gc \<and>
    remaining_free_cells ((add_heap calloc ^^ n) gc)
      = remaining_free_cells gc + of_nat n * heap_cell_count (config gc) \<and>
    err_stream ((add_heap calloc ^^ n) gc) = err_stream gc"
    by (induction n) (simp_all add: add_heap_fields algebra_simps)
  then show "length (heaps ((add_heap calloc ^^ n) gc)) = length (heaps gc) + n"
    "config ((add_heap calloc ^^ n) gc) = config gc"
    "remaining_free_cells ((add_heap calloc ^^ n) gc)
       = remaining_free_cells gc + of_nat n * heap_cell_count (config gc)"
    "err_stream ((add_heap calloc ^^ n) gc) = err_stream gc"
    by simp_all
qed

lemma add_heaps_free_cell:
  assumes "heap_cell_count (config gc) \<noteq> 0" and "\<forall>k i. calloc k i \<noteq> 0" and "n \<noteq> 0"
  shows "free_cell ((add_heap calloc ^^ n) gc) \<noteq> 0"
proof -
  from assms(3) obtain m where n: "n = Suc m" by (cases n) simp_all
  have "heap_cell_count (config ((add_heap calloc ^^ m) gc)) \<noteq> 0"
    using assms(1) by (simp add: add_heaps_fields)
  then show ?thesis
    unfolding n using assms(2) by (simp add: add_heap_free_cell)
qed

lemma add_heaps_none: "(add_heap calloc ^^ 0) gc = gc"
  by simp

lemma grow_heap_eq: "grow_heap calloc gc = (add_heap calloc ^^ unat (heaps_to_add gc)) gc"
  by (simp add: grow_heap_def heaps_to_add_def Let_def)

text \<open>
  With a growth factor of at least 1 and no overflow, growing a heap of \<open>k\<close> arenas by the
  factor \<open>f\<close> gives \<open>k f + 1\<close> arenas.
\<close>

lemma heaps_to_add_exact:
  assumes "heap_growth_factor (config gc) \<noteq> 0"
    and "length (heaps gc) * unat (heap_growth_factor (config gc)) + 1 < 2 ^ 64"
  shows "length (heaps gc) + unat (heaps_to_add gc)
     = length (heaps gc) * unat (heap_growth_factor (config gc)) + 1"
proof -
  define k where "k = length (heaps gc)"
  define f where "f = heap_growth_factor (config gc)"
  from assms(1) have f: "1 \<le> unat f"
    unfolding f_def by (simp add: unat_gt_0 Suc_le_eq)
  then have le: "k \<le> k * unat f + 1"
    by (metis le_add1 mult.right_neutral mult_le_mono2 order_trans)
  from assms(2) have b: "k * unat f + 1 < 2 ^ 64"
    by (simp add: k_def f_def)
  with le have kb: "k < 2 ^ 64" by simp
  have uk: "unat (of_nat k :: 64 word) = k"
    using kb by (simp add: unat_of_nat)
  have ux: "unat (of_nat k * f + 1 :: 64 word) = k * unat f + 1"
  proof -
    have "(of_nat k * f + 1 :: 64 word) = of_nat (k * unat f + 1)"
      by simp
    then show ?thesis
      using b by (simp only: unat_of_nat) simp
  qed
  have "(of_nat k :: 64 word) \<le> of_nat k * f + 1"
    unfolding word_le_nat_alt uk ux by (rule le)
  then have "unat (of_nat k * f + 1 - of_nat k :: 64 word) = k * unat f + 1 - k"
    by (simp add: unat_sub uk ux)
  with le show ?thesis
    by (simp add: heaps_to_add_def k_def [symmetric] f_def [symmetric])
qed

text \<open>
  Claim C2, amended. When the head of the freelist is a dead cell of the heap, \<open>allocate\<close>
  takes it off the freelist and returns it. When the freelist is empty after that, or the
  count of free cells (before it is decremented for this allocation) is at most
  \<open>min_free_cells\<close>, it runs a collection; if the freelist is still empty, it grows the heap
  by \<open>heaps_to_add\<close> arenas, which gives a free cell whenever at least one arena of at least
  one cell is added. If the freelist is empty even after the growth, \<open>allocate\<close> only writes
  a line to the error stream and still returns the cell; the failure shows at the next
  allocation, which dereferences the null head of the freelist.
\<close>

theorem allocate_collects_then_grows:
  assumes "free_cell gc \<noteq> 0" and "heap_memory (heaps gc) (free_cell gc) = Some c"
    and "cell_payload c = DeadCell next"
    and "collect (gc\<lparr>free_cell := next\<rparr>) vm = (gc1, vm1, n)"
  shows
    "allocate calloc gc vm =
       Inr (free_cell gc,
         if next \<noteq> 0 \<and> min_free_cells (config gc) < remaining_free_cells gc then
           (gc\<lparr>free_cell := next, remaining_free_cells := remaining_free_cells gc - 1\<rparr>, vm)
         else if free_cell gc1 \<noteq> 0 then
           (gc1\<lparr>remaining_free_cells := remaining_free_cells gc1 - 1\<rparr>, vm1)
         else if free_cell (grow_heap calloc gc1) \<noteq> 0 then
           ((grow_heap calloc gc1)
              \<lparr>remaining_free_cells := remaining_free_cells (grow_heap calloc gc1) - 1\<rparr>, vm1)
         else
           ((grow_heap calloc gc1)
              \<lparr>err_stream := err_stream gc1 @ [expand_failure],
               remaining_free_cells := remaining_free_cells (grow_heap calloc gc1) - 1\<rparr>, vm1)) \<and>
     length (heaps (grow_heap calloc gc1)) = length (heaps gc1) + unat (heaps_to_add gc1) \<and>
     remaining_free_cells (grow_heap calloc gc1)
       = remaining_free_cells gc1 + heaps_to_add gc1 * heap_cell_count (config gc1) \<and>
     (heaps_to_add gc1 = 0 \<longrightarrow> grow_heap calloc gc1 = gc1) \<and>
     (heaps_to_add gc1 \<noteq> 0 \<and> heap_cell_count (config gc1) \<noteq> 0 \<and> (\<forall>k i. calloc k i \<noteq> 0) \<longrightarrow>
        free_cell (grow_heap calloc gc1) \<noteq> 0) \<and>
     (\<forall>cell gc' vm'. allocate calloc gc vm = Inr (cell, gc', vm') \<and> free_cell gc' = 0 \<longrightarrow>
        allocate calloc gc' vm' = Inl NullFreelist)"
proof -
  have a: "allocate calloc gc vm =
       Inr (free_cell gc,
         if next \<noteq> 0 \<and> min_free_cells (config gc) < remaining_free_cells gc then
           (gc\<lparr>free_cell := next, remaining_free_cells := remaining_free_cells gc - 1\<rparr>, vm)
         else if free_cell gc1 \<noteq> 0 then
           (gc1\<lparr>remaining_free_cells := remaining_free_cells gc1 - 1\<rparr>, vm1)
         else if free_cell (grow_heap calloc gc1) \<noteq> 0 then
           ((grow_heap calloc gc1)
              \<lparr>remaining_free_cells := remaining_free_cells (grow_heap calloc gc1) - 1\<rparr>, vm1)
         else
           ((grow_heap calloc gc1)
              \<lparr>err_stream := err_stream gc1 @ [expand_failure],
               remaining_free_cells := remaining_free_cells (grow_heap calloc gc1) - 1\<rparr>, vm1))"
    using assms
    by (simp add: allocate_def Let_def expand_failure_def grow_heap_eq add_heaps_fields
        not_le [symmetric])
  have l: "length (heaps (grow_heap calloc gc1)) = length (heaps gc1) + unat (heaps_to_add gc1)"
    by (simp add: grow_heap_eq add_heaps_fields)
  have r: "remaining_free_cells (grow_heap calloc gc1)
       = remaining_free_cells gc1 + heaps_to_add gc1 * heap_cell_count (config gc1)"
    by (simp add: grow_heap_eq add_heaps_fields)
  have z: "grow_heap calloc gc1 = gc1" if "heaps_to_add gc1 = 0"
    by (simp add: grow_heap_eq that)
  have f: "free_cell (grow_heap calloc gc1) \<noteq> 0"
    if "heaps_to_add gc1 \<noteq> 0 \<and> heap_cell_count (config gc1) \<noteq> 0 \<and> (\<forall>k i. calloc k i \<noteq> 0)"
    unfolding grow_heap_eq using that by (intro add_heaps_free_cell) (simp_all add: unat_eq_0)
  have e: "allocate calloc gc' vm' = Inl NullFreelist" if "free_cell gc' = 0" for gc' vm'
    using that by (simp add: allocate_def)
  from a l r z f e show ?thesis
    by blast
qed

text \<open>
  An address for every cell of every arena, and a collector with a growth factor of 0 and
  one arena of one cell, which is the freelist.
\<close>

definition cell_address :: "nat \<Rightarrow> nat \<Rightarrow> addr" where
  "cell_address k i = 0x100000 * (of_nat k + 1) + 0x40 * of_nat i"

definition fixed_gc :: GarbageCollector where
  "fixed_gc =
     \<lparr>config = \<lparr>heap_cell_count = 1, heap_growth_factor = 0, min_free_cells = 0\<rparr>,
      heaps = [[(0x1000, dead_cell 0)]],
      free_cell = 0x1000, remaining_free_cells = 1, temporaries = [], clean_log = [],
      err_stream = []\<rparr>"

text \<open>
  Claim C2, as stated, fails at this collector. \<open>allocate\<close> takes the last free cell; the
  collection frees nothing; \<open>grow_heap\<close> adds \<open>(1 * 0 + 1) - 1 = 0\<close> arenas. The freelist is
  empty after the growth, and \<open>allocate\<close> writes a line to the error stream and returns the
  cell as usual: nothing terminates the machine. The next call of \<open>allocate\<close> dereferences
  the null head of the freelist.
\<close>

theorem allocate_exhausted_counterexample:
  "allocate cell_address fixed_gc idle_vm =
     Inr (0x1000,
          fixed_gc\<lparr>free_cell := 0, remaining_free_cells := 0, err_stream := [expand_failure]\<rparr>,
          idle_vm) \<and>
   allocate cell_address
     (fixed_gc\<lparr>free_cell := 0, remaining_free_cells := 0, err_stream := [expand_failure]\<rparr>)
     idle_vm = Inl NullFreelist"
  by (simp add: allocate_def fixed_gc_def grow_heap_def expand_failure_def collect_eval)


text \<open>
  A collector with a growth factor of 2 and one arena of two cells: an object, to which
  the stack of the machine points, and the last free cell. \<open>allocate\<close> returns this cell,
  the collection frees nothing, and the heap grows by two arenas.
\<close>

definition full_gc :: GarbageCollector where
  "full_gc =
     \<lparr>config = example_config,
      heaps = [[(0x1000, example_object), (0x2000, dead_cell 0)]],
      free_cell = 0x2000, remaining_free_cells = 1, temporaries = [], clean_log = [],
      err_stream = []\<rparr>"

definition grown_gc :: GarbageCollector where
  "grown_gc =
     full_gc\<lparr>heaps :=
         [[(0x1000, example_object), (0x2000, dead_cell 0)],
          [(0x200000, dead_cell 0), (0x200040, dead_cell 0x200000)],
          [(0x300000, dead_cell 0x200040), (0x300040, dead_cell 0x300000)]],
       free_cell := 0x300040, remaining_free_cells := 5\<rparr>"

theorem allocate_collects_then_grows_witness:
  "free_cell full_gc = 0x2000 \<and>
   heap_memory (heaps full_gc) 0x2000 = Some (dead_cell 0) \<and>
   collect (full_gc\<lparr>free_cell := 0\<rparr>) example_vm = (full_gc\<lparr>free_cell := 0\<rparr>, example_vm, 0) \<and>
   heaps_to_add (full_gc\<lparr>free_cell := 0\<rparr>) = 2 \<and>
   grow_heap cell_address (full_gc\<lparr>free_cell := 0\<rparr>) = grown_gc \<and>
   allocate cell_address full_gc example_vm =
     Inr (0x2000, grown_gc\<lparr>remaining_free_cells := 4\<rparr>, example_vm)"
proof -
  have h: "free_cell full_gc = 0x2000" "free_cell full_gc \<noteq> 0"
    "heap_memory (heaps full_gc) (free_cell full_gc) = Some (dead_cell 0)"
    "cell_payload (dead_cell 0) = DeadCell 0"
    by (simp_all add: full_gc_def heap_memory_def dead_cell_def)
  have c: "collect (full_gc\<lparr>free_cell := 0\<rparr>) example_vm
      = (full_gc\<lparr>free_cell := 0\<rparr>, example_vm, 0)"
    by (simp add: full_gc_def example_vm_def collect_eval)
  have n: "heaps_to_add (full_gc\<lparr>free_cell := 0\<rparr>) = 2"
    by (simp add: heaps_to_add_def full_gc_def example_config_def)
  have u: "unat (2 :: 64 word) = Suc (Suc 0)"
    by simp
  have g: "grow_heap cell_address (full_gc\<lparr>free_cell := 0\<rparr>) = grown_gc"
    unfolding grow_heap_eq n u
    by (simp add: add_heap_def cell_address_def full_gc_def
        grown_gc_def example_config_def dead_cell_def Let_def upt_rec)
  have f: "free_cell grown_gc \<noteq> 0" "remaining_free_cells grown_gc = 5"
    by (simp_all add: grown_gc_def)
  from allocate_collects_then_grows [OF h(2,3,4) c, of cell_address]
  have "allocate cell_address full_gc example_vm =
     Inr (0x2000, grown_gc\<lparr>remaining_free_cells := 4\<rparr>, example_vm)"
    unfolding g by (simp add: f h(1))
  with h(1,3) c n g show ?thesis
    by simp
qed

end
